theory Spec2Isabelle
  imports Main
begin

section \<open>Forwardable-port discovery (\<open>getForwardablePorts\<close>)\<close>

subsection \<open>Cluster resources\<close>

text \<open>
  The resources are plain JavaScript objects read through the Kubernetes client types.
  Every property the source reads with \<open>?.\<close>, \<open>||\<close> or \<open>!\<close> is optional here;
  reading a property of \<open>undefined\<close> is the \<open>TypeError\<close> of the runtime.
  An object of string labels (\<open>{ [key: string]: string }\<close>) is an association list.
\<close>

type_synonym labelMap = "(string \<times> string) list"

datatype IntOrString = Num int | Str string

record V1ServicePort =
  sp_name :: "string option"
  sp_port :: int
  sp_targetPort :: "IntOrString option"

record V1ContainerPort =
  cp_name :: "string option"
  containerPort :: int

record V1Container =
  c_ports :: "V1ContainerPort list option"

record V1PodSpec =
  containers :: "V1Container list option"

record V1ObjectMeta =
  m_name :: "string option"
  labels :: "labelMap option"

record V1PodTemplate =
  pt_metadata :: "V1ObjectMeta option"
  pt_spec :: "V1PodSpec option"

text \<open>
  One record for \<open>resource.spec\<close>: a Service is read at \<open>selector\<close> and \<open>ports\<close>,
  a Deployment or DaemonSet at \<open>template\<close>.
\<close>

record ResourceSpec =
  selector :: "labelMap option"
  ports :: "V1ServicePort list option"
  template :: "V1PodTemplate option"

record KubernetesResource =
  apiVersion :: string
  kind :: string
  metadata :: "V1ObjectMeta option"
  spec :: "ResourceSpec option"

record ForwardablePort =
  name :: "string option"
  protocol :: string
  targetName :: string
  targetPort :: int

datatype error = TypeError

text \<open>String conversion of an optional string in a concatenation or a template literal.\<close>

fun js_string :: "string option \<Rightarrow> string" where
  "js_string None = ''undefined''"
| "js_string (Some s) = s"

text \<open>Truthiness of an optional number-or-string (\<open>serviceTargetPort && ...\<close>).\<close>

fun truthy :: "IntOrString option \<Rightarrow> bool" where
  "truthy None = False"
| "truthy (Some (Num n)) = (n \<noteq> 0)"
| "truthy (Some (Str s)) = (s \<noteq> [])"

subsection \<open>Collaborators from \<open>./util\<close>\<close>

text \<open>
  \<open>isBuiltIn\<close> and \<open>matchSelector\<close> are imported from \<open>./util\<close>. The functions below
  take them as the parameters \<open>B\<close> and \<open>M\<close>; the two definitions here are used for concrete
  inputs only.
\<close>

text \<open>
  Modelled from the spec: \<open>isBuiltIn\<close> of \<open>./util\<close>. The resolver of the specification
  selects resources by their kind alone, so every resource counts as built-in.
\<close>

definition isBuiltIn :: "KubernetesResource \<Rightarrow> bool" where
  "isBuiltIn r = True"

text \<open>
  Modelled from the spec: \<open>matchSelector\<close> of \<open>./util\<close>, the subset test
  "every selector key/value must appear in the pod labels".
\<close>

definition matchSelector :: "labelMap \<Rightarrow> labelMap \<Rightarrow> bool" where
  "matchSelector sel lbls = list_all (\<lambda>k. map_of lbls k = map_of sel k) (map fst sel)"

subsection \<open>The resolver\<close>

text \<open>The first loop nest: one entry per port of each Service.\<close>

fun pushServicePorts ::
  "KubernetesResource \<Rightarrow> V1ServicePort list \<Rightarrow> ForwardablePort list \<Rightarrow> error + ForwardablePort list"
where
  "pushServicePorts service [] acc = Inr acc"
| "pushServicePorts service (portSpec # rest) acc =
     (case metadata service of
        None \<Rightarrow> Inl TypeError
      | Some m \<Rightarrow>
          pushServicePorts service rest
            (acc @ [\<lparr>name = sp_name portSpec, protocol = ''TCP'',
                     targetName = ''Service/'' @ js_string (m_name m),
                     targetPort = sp_port portSpec\<rparr>]))"

fun serviceLoop ::
  "KubernetesResource list \<Rightarrow> ForwardablePort list \<Rightarrow> error + ForwardablePort list"
where
  "serviceLoop [] acc = Inr acc"
| "serviceLoop (service # rest) acc =
     (case spec service of
        None \<Rightarrow> Inl TypeError
      | Some sv \<Rightarrow>
          (case pushServicePorts service (case ports sv of None \<Rightarrow> [] | Some ps \<Rightarrow> ps) acc of
             Inl e \<Rightarrow> Inl e
           | Inr acc' \<Rightarrow> serviceLoop rest acc'))"

text \<open>The inner loop of \<open>matchesService\<close> over the ports of one Service.\<close>

fun portsMatch :: "V1ServicePort list \<Rightarrow> V1ContainerPort \<Rightarrow> bool" where
  "portsMatch [] portSpec = False"
| "portsMatch (servicePort # rest) portSpec =
     (if truthy (sp_targetPort servicePort)
          \<and> sp_targetPort servicePort = Some (Num (containerPort portSpec))
      then True
      else portsMatch rest portSpec)"

definition selectorOf :: "KubernetesResource \<Rightarrow> labelMap" where
  "selectorOf service =
     (case spec service of None \<Rightarrow> []
      | Some sv \<Rightarrow> (case selector sv of None \<Rightarrow> [] | Some sel \<Rightarrow> sel))"

definition portsOf :: "KubernetesResource \<Rightarrow> V1ServicePort list" where
  "portsOf service =
     (case spec service of None \<Rightarrow> []
      | Some sv \<Rightarrow> (case ports sv of None \<Rightarrow> [] | Some ps \<Rightarrow> ps))"

definition labelsOf :: "V1PodTemplate \<Rightarrow> labelMap" where
  "labelsOf podTemplate =
     (case pt_metadata podTemplate of None \<Rightarrow> []
      | Some m \<Rightarrow> (case labels m of None \<Rightarrow> [] | Some l \<Rightarrow> l))"

fun matchesService ::
  "(labelMap \<Rightarrow> labelMap \<Rightarrow> bool) \<Rightarrow> KubernetesResource list \<Rightarrow> V1PodTemplate
     \<Rightarrow> V1ContainerPort \<Rightarrow> bool"
where
  "matchesService M [] podTemplate portSpec = False"
| "matchesService M (service # rest) podTemplate portSpec =
     (if \<not> M (selectorOf service) (labelsOf podTemplate)
      then matchesService M rest podTemplate portSpec
      else if portsMatch (portsOf service) portSpec then True
      else matchesService M rest podTemplate portSpec)"

text \<open>The second loop nest: the container ports of each workload no Service points to.\<close>

definition portSpecsOf :: "V1PodTemplate \<Rightarrow> V1ContainerPort list" where
  "portSpecsOf podTemplate =
     (let cs = (case pt_spec podTemplate of None \<Rightarrow> []
                | Some ps \<Rightarrow> (case containers ps of None \<Rightarrow> [] | Some cs \<Rightarrow> cs))
      in concat (map (\<lambda>c. case c_ports c of None \<Rightarrow> [] | Some ps \<Rightarrow> ps) cs))"

fun pushContainerPorts ::
  "(labelMap \<Rightarrow> labelMap \<Rightarrow> bool) \<Rightarrow> KubernetesResource list \<Rightarrow> KubernetesResource
     \<Rightarrow> V1PodTemplate \<Rightarrow> V1ContainerPort list \<Rightarrow> ForwardablePort list
     \<Rightarrow> error + ForwardablePort list"
where
  "pushContainerPorts M services workload podTemplate [] acc = Inr acc"
| "pushContainerPorts M services workload podTemplate (portSpec # rest) acc =
     (if matchesService M services podTemplate portSpec
      then pushContainerPorts M services workload podTemplate rest acc
      else (case metadata workload of
              None \<Rightarrow> Inl TypeError
            | Some m \<Rightarrow>
                pushContainerPorts M services workload podTemplate rest
                  (acc @ [\<lparr>name = cp_name portSpec, protocol = ''TCP'',
                           targetName = kind workload @ ''/'' @ js_string (m_name m),
                           targetPort = containerPort portSpec\<rparr>])))"

fun workloadLoop ::
  "(labelMap \<Rightarrow> labelMap \<Rightarrow> bool) \<Rightarrow> KubernetesResource list \<Rightarrow> KubernetesResource list
     \<Rightarrow> ForwardablePort list \<Rightarrow> error + ForwardablePort list"
where
  "workloadLoop M services [] acc = Inr acc"
| "workloadLoop M services (workload # rest) acc =
     (case spec workload of
        None \<Rightarrow> Inl TypeError
      | Some ws \<Rightarrow>
          (case template ws of
             None \<Rightarrow> Inl TypeError
           | Some podTemplate \<Rightarrow>
               (case pushContainerPorts M services workload podTemplate
                       (portSpecsOf podTemplate) acc of
                  Inl e \<Rightarrow> Inl e
                | Inr acc' \<Rightarrow> workloadLoop M services rest acc')))"

definition isService :: "(KubernetesResource \<Rightarrow> bool) \<Rightarrow> KubernetesResource \<Rightarrow> bool" where
  "isService B r = (B r \<and> kind r = ''Service'')"

definition isWorkload :: "(KubernetesResource \<Rightarrow> bool) \<Rightarrow> KubernetesResource \<Rightarrow> bool" where
  "isWorkload B r = ((B r \<and> kind r = ''Deployment'') \<or> kind r = ''DaemonSet'')"

definition getForwardablePorts ::
  "(KubernetesResource \<Rightarrow> bool) \<Rightarrow> (labelMap \<Rightarrow> labelMap \<Rightarrow> bool)
     \<Rightarrow> KubernetesResource list \<Rightarrow> error + ForwardablePort list"
where
  "getForwardablePorts B M resources =
     (let services = filter (isService B) resources in
      case serviceLoop services [] of
        Inl e \<Rightarrow> Inl e
      | Inr acc \<Rightarrow>
          (let workloads = filter (isWorkload B) resources
           in workloadLoop M services workloads acc))"

section \<open>Tunnel registry and process supervision (\<open>getPortForward\<close>)\<close>

subsection \<open>State\<close>

text \<open>
  The module runs on one thread: a call of \<open>getPortForward\<close> and every event of a child
  process (a chunk on stdout or stderr, close, error, the end of a \<open>sleep\<close>) runs to its
  next \<open>await\<close> before anything else does. Each is a function on the state of the module
  here, and a run is their composition in the order the events come.

  A child process is an object shared between the registry, the descriptor returned to
  callers and the event handlers, so processes live in a store indexed by a handle and a
  descriptor holds the handle. The store keeps the one property the source reads,
  \<open>proc.killed\<close>.
\<close>

type_synonym handle = nat

record PortForward =
  targetResource :: string
  port :: int
  localPort :: int
  proc :: handle

datatype exn =
    RuntimeError string "int option" PortForward
  | ProcessError string
  | KillError handle

datatype promise = Pending | Resolved PortForward | Rejected exn

text \<open>
  The variables one call of \<open>getPortForward\<close> leaves to the handlers of its process:
  \<open>key\<close>, \<open>portForward\<close>, \<open>resolved\<close>, \<open>output\<close> (here \<open>output_buf\<close>), and the
  promise of the call (\<open>resolve\<close> and \<open>reject\<close>), found through the number of the call.
\<close>

record Closure =
  key :: string
  portForward :: PortForward
  resolved :: bool
  output_buf :: string
  caller :: nat

text \<open>
  \<open>registeredPortForwards\<close> is an object with string keys: an association list in
  insertion order, the order \<open>Object.values\<close> follows. \<open>lock\<close> and \<open>queue\<close> are
  \<open>portForwardRegistrationLock\<close>: the call running the locked function, and the calls
  waiting for it. \<open>results\<close> is the promise each call of \<open>getPortForward\<close> returned.
  \<open>timers\<close> are the pending \<open>sleep(ms).then(() => resolve(portForward))\<close>.
\<close>

record System =
  registeredPortForwards :: "(string \<times> PortForward) list"
  killed :: "handle \<Rightarrow> bool"
  spawned :: nat
  closures :: "handle \<Rightarrow> Closure option"
  timers :: "(nat \<times> handle) list"
  lock :: "nat option"
  queue :: "(nat \<times> string \<times> int) list"
  ncalls :: nat
  results :: "nat \<Rightarrow> promise"

definition initial :: System where
  "initial = \<lparr>registeredPortForwards = [], killed = (\<lambda>h. False), spawned = 0,
     closures = (\<lambda>h. None), timers = [], lock = None, queue = [], ncalls = 0,
     results = (\<lambda>c. Pending)\<rparr>"

subsection \<open>Keys and strings\<close>

fun show_nat :: "nat \<Rightarrow> string" where
  "show_nat n =
     (if n < 10 then [''0123456789'' ! n]
      else show_nat (n div 10) @ [''0123456789'' ! (n mod 10)])"

declare show_nat.simps [simp del]

definition show_int :: "int \<Rightarrow> string" where
  "show_int i = (if i < 0 then ''-'' @ show_nat (nat (- i)) else show_nat (nat i))"

definition getPortForwardKey :: "string \<Rightarrow> int \<Rightarrow> string" where
  "getPortForwardKey tr p = tr @ '':'' @ show_int p"

text \<open>\<open>line.includes(sub)\<close>.\<close>

fun js_includes :: "string \<Rightarrow> string \<Rightarrow> bool" where
  "js_includes [] sub = (sub = [])"
| "js_includes (c # cs) sub = (take (length sub) (c # cs) = sub \<or> js_includes cs sub)"

text \<open>\<open>registeredPortForwards[key] = v\<close> and \<open>delete registeredPortForwards[key]\<close>.\<close>

fun assign :: "string \<Rightarrow> PortForward \<Rightarrow> (string \<times> PortForward) list
    \<Rightarrow> (string \<times> PortForward) list" where
  "assign k v [] = [(k, v)]"
| "assign k v (e # rest) = (if fst e = k then (k, v) # rest else e # assign k v rest)"

definition delete :: "string \<Rightarrow> (string \<times> PortForward) list \<Rightarrow> (string \<times> PortForward) list"
where
  "delete k reg = filter (\<lambda>e. fst e \<noteq> k) reg"

subsection \<open>The external process and port allocator\<close>

text \<open>
  What \<open>proc.kill()\<close> does is the child-process library's: it sends the signal and sets
  \<open>killed\<close>, or returns false and leaves \<open>killed\<close> as it was, or throws. The outcome
  for each process is the parameter \<open>K\<close>. \<open>getPort()\<close> is the parameter \<open>G\<close>: the local
  port allocated for the process about to be spawned. \<open>getPort\<close>, the construction of the
  kubectl arguments and \<open>execa\<close> are taken to succeed.
\<close>

datatype KillOutcome = KillOk | KillFalse | KillThrows

definition kill :: "(handle \<Rightarrow> KillOutcome) \<Rightarrow> handle \<Rightarrow> System \<Rightarrow> exn option \<times> System" where
  "kill K h s =
     (case K h of
        KillOk \<Rightarrow> (None, s\<lparr>killed := (killed s)(h := True)\<rparr>)
      | KillFalse \<Rightarrow> (None, s)
      | KillThrows \<Rightarrow> (Some (KillError h), s))"

text \<open>\<open>!proc.killed && proc.kill()\<close>.\<close>

definition killUnlessKilled ::
  "(handle \<Rightarrow> KillOutcome) \<Rightarrow> handle \<Rightarrow> System \<Rightarrow> exn option \<times> System" where
  "killUnlessKilled K h s = (if \<not> killed s h then kill K h s else (None, s))"

subsection \<open>\<open>killPortForward\<close> and the cleanup function\<close>

definition killPortForward ::
  "(handle \<Rightarrow> KillOutcome) \<Rightarrow> string \<Rightarrow> int \<Rightarrow> System \<Rightarrow> exn option \<times> System" where
  "killPortForward K tr tp s =
     (let k = getPortForwardKey tr tp in
      case map_of (registeredPortForwards s) k of
        Some fwd \<Rightarrow> killUnlessKilled K (proc fwd) s
      | None \<Rightarrow> (None, s))"

text \<open>
  The loop of the cleanup function over \<open>Object.values(registeredPortForwards)\<close>. There is
  no \<open>try\<close> in it: an exception of \<open>killPortForward\<close> ends the loop.
\<close>

fun killAll ::
  "(handle \<Rightarrow> KillOutcome) \<Rightarrow> PortForward list \<Rightarrow> System \<Rightarrow> exn option \<times> System" where
  "killAll K [] s = (None, s)"
| "killAll K (fwd # rest) s =
     (case killPortForward K (targetResource fwd) (port fwd) s of
        (Some e, s') \<Rightarrow> (Some e, s')
      | (None, s') \<Rightarrow> killAll K rest s')"

definition cleanup :: "(handle \<Rightarrow> KillOutcome) \<Rightarrow> System \<Rightarrow> exn option \<times> System" where
  "cleanup K s = killAll K (map snd (registeredPortForwards s)) s"

subsection \<open>\<open>getPortForward\<close>\<close>

text \<open>
  The part of the locked function after the registry lookup failed: allocate the local
  port, spawn the process, and return the promise whose handlers are the functions of the
  next subsection. The registry is not written here. Between the lookup and the return
  the source awaits \<open>getPort()\<close> and the path of kubectl; it reads no shared variable
  after the lookup, and the handlers are attached in the same turn as \<open>execa\<close>, so the
  part is one step.
\<close>

definition spawn :: "(handle \<Rightarrow> int) \<Rightarrow> nat \<Rightarrow> string \<Rightarrow> int \<Rightarrow> string \<Rightarrow> System \<Rightarrow> System" where
  "spawn G cid tr p k s =
     (let h = spawned s;
          lp = G h;
          pf = \<lparr>targetResource = tr, port = p, localPort = lp, proc = h\<rparr>
      in s\<lparr>spawned := Suc h,
            killed := (killed s)(h := False),
            closures := (closures s)(h \<mapsto>
              \<lparr>key = k, portForward = pf, resolved = False, output_buf = [], caller = cid\<rparr>)\<rparr>)"

text \<open>
  The function run under the lock, for call \<open>cid\<close>, which holds the lock on entry. The
  reuse branch returns at once, which settles the call and frees the lock; the other
  branch returns a pending promise, and the lock stays with the call until that promise
  is settled.
\<close>

definition getPortForward_locked ::
  "(handle \<Rightarrow> int) \<Rightarrow> nat \<Rightarrow> string \<Rightarrow> int \<Rightarrow> System \<Rightarrow> System" where
  "getPortForward_locked G cid tr p s =
     (let k = getPortForwardKey tr p in
      case map_of (registeredPortForwards s) k of
        Some registered \<Rightarrow>
          if \<not> killed s (proc registered)
          then s\<lparr>results := (results s)(cid := Resolved registered), lock := None\<rparr>
          else spawn G cid tr p k s
      | None \<Rightarrow> spawn G cid tr p k s)"

text \<open>
  The lock (the \<open>async-lock\<close> package): waiting calls run one at a time in the order they
  came, the next one when the promise of the one before is settled.
\<close>

fun pump :: "(handle \<Rightarrow> int) \<Rightarrow> (nat \<times> string \<times> int) list \<Rightarrow> System \<Rightarrow> System" where
  "pump G [] s = s\<lparr>queue := []\<rparr>"
| "pump G (r # rest) s =
     (case lock s of
        Some c \<Rightarrow> s\<lparr>queue := r # rest\<rparr>
      | None \<Rightarrow>
          pump G rest
            (getPortForward_locked G (fst r) (fst (snd r)) (snd (snd r))
               (s\<lparr>lock := Some (fst r)\<rparr>)))"

text \<open>
  A call of \<open>getPortForward\<close> gets the next call number and a fresh pending promise, and
  joins the calls waiting for the lock.
\<close>

definition getPortForward :: "(handle \<Rightarrow> int) \<Rightarrow> string \<Rightarrow> int \<Rightarrow> System \<Rightarrow> System" where
  "getPortForward G tr p s =
     pump G (queue s @ [(ncalls s, tr, p)])
       (s\<lparr>ncalls := Suc (ncalls s), results := (results s)(ncalls s := Pending)\<rparr>)"

text \<open>
  \<open>resolve\<close> and \<open>reject\<close>: a promise is settled once, later calls do nothing. Settling
  the promise of the call that holds the lock frees the lock for the waiting calls.
\<close>

definition settle :: "(handle \<Rightarrow> int) \<Rightarrow> nat \<Rightarrow> promise \<Rightarrow> System \<Rightarrow> System" where
  "settle G cid r s =
     (if results s cid \<noteq> Pending then s
      else (let s1 = s\<lparr>results := (results s)(cid := r)\<rparr>
            in if lock s1 = Some cid then pump G (queue s1) (s1\<lparr>lock := None\<rparr>) else s1))"

subsection \<open>The handlers of one process\<close>

definition settleDelay :: nat where
  "settleDelay = 250"

definition show_code :: "int option \<Rightarrow> string" where
  "show_code c = (case c of None \<Rightarrow> ''null'' | Some n \<Rightarrow> show_int n)"

definition closeMessage :: "int option \<Rightarrow> string \<Rightarrow> string" where
  "closeMessage c out =
     ''Port forward exited with code '' @ show_code c
       @ '' before establishing connection:'' @ [CHR 0x0A, CHR 0x0A] @ out"

text \<open>\<open>proc.on("close", (code) => ...)\<close>\<close>

definition on_close :: "(handle \<Rightarrow> int) \<Rightarrow> handle \<Rightarrow> int option \<Rightarrow> System \<Rightarrow> System" where
  "on_close G h c s =
     (case closures s h of
        None \<Rightarrow> s
      | Some cl \<Rightarrow>
          (let s1 = (if map_of (registeredPortForwards s) (key cl) \<noteq> None
                     then s\<lparr>registeredPortForwards := delete (key cl) (registeredPortForwards s)\<rparr>
                     else s)
           in if \<not> resolved cl
              then settle G (caller cl)
                     (Rejected (RuntimeError (closeMessage c (output_buf cl)) c (portForward cl))) s1
              else s1))"

text \<open>\<open>proc.on("error", (error) => ...)\<close>: the handler ends by throwing.\<close>

definition on_error ::
  "(handle \<Rightarrow> KillOutcome) \<Rightarrow> handle \<Rightarrow> exn \<Rightarrow> System \<Rightarrow> exn option \<times> System" where
  "on_error K h e s =
     (case closures s h of
        None \<Rightarrow> (None, s)
      | Some cl \<Rightarrow>
          (case killUnlessKilled K h s of
             (Some e', s') \<Rightarrow> (Some e', s')
           | (None, s') \<Rightarrow> (Some e, s')))"

text \<open>\<open>proc.stdout.on("data", (line) => ...)\<close>\<close>

definition on_stdout :: "handle \<Rightarrow> string \<Rightarrow> System \<Rightarrow> System" where
  "on_stdout h line s =
     (case closures s h of
        None \<Rightarrow> s
      | Some cl \<Rightarrow>
          if resolved cl then s
          else (let cl1 = cl\<lparr>output_buf := output_buf cl @ line\<rparr>
                in if js_includes line ''Forwarding from ''
                   then s\<lparr>registeredPortForwards :=
                            assign (key cl) (portForward cl) (registeredPortForwards s),
                          closures := (closures s)(h \<mapsto> cl1\<lparr>resolved := True\<rparr>),
                          timers := timers s @ [(settleDelay, h)]\<rparr>
                   else s\<lparr>closures := (closures s)(h \<mapsto> cl1)\<rparr>))"

text \<open>The end of \<open>sleep(250)\<close>: \<open>resolve(portForward)\<close>.\<close>

definition on_timer :: "(handle \<Rightarrow> int) \<Rightarrow> handle \<Rightarrow> System \<Rightarrow> System" where
  "on_timer G h s =
     (if (settleDelay, h) \<in> set (timers s)
      then (let s1 = s\<lparr>timers := remove1 (settleDelay, h) (timers s)\<rparr>
            in case closures s1 h of
                 None \<Rightarrow> s1
               | Some cl \<Rightarrow> settle G (caller cl) (Resolved (portForward cl)) s1)
      else s)"

text \<open>\<open>proc.stderr.on("data", (line) => ...)\<close>\<close>

definition fatalLine :: "string \<Rightarrow> bool" where
  "fatalLine line =
     (js_includes line ''error forwarding port''
      \<or> js_includes line ''unable to forward''
      \<or> js_includes line ''error upgrading connection'')"

definition on_stderr ::
  "(handle \<Rightarrow> KillOutcome) \<Rightarrow> handle \<Rightarrow> string \<Rightarrow> System \<Rightarrow> exn option \<times> System" where
  "on_stderr K h line s =
     (case closures s h of
        None \<Rightarrow> (None, s)
      | Some cl \<Rightarrow>
          (let s1 = s\<lparr>closures := (closures s)(h \<mapsto> cl\<lparr>output_buf := output_buf cl @ line\<rparr>)\<rparr>
           in if fatalLine line then killUnlessKilled K h s1 else (None, s1)))"

section \<open>The resolver in the words of the specification\<close>

text \<open>
  The entries of the result, and the condition under which a container port is left out,
  written as the specification states them; the theorems below compare them with the
  loops of the source.
\<close>

definition resourceName :: "KubernetesResource \<Rightarrow> string" where
  "resourceName r = js_string (case metadata r of None \<Rightarrow> None | Some m \<Rightarrow> m_name m)"

definition templateOf :: "KubernetesResource \<Rightarrow> V1PodTemplate option" where
  "templateOf workload = (case spec workload of None \<Rightarrow> None | Some ws \<Rightarrow> template ws)"

definition serviceEntry :: "KubernetesResource \<Rightarrow> V1ServicePort \<Rightarrow> ForwardablePort" where
  "serviceEntry service portSpec =
     \<lparr>name = sp_name portSpec, protocol = ''TCP'',
      targetName = ''Service/'' @ resourceName service, targetPort = sp_port portSpec\<rparr>"

definition workloadEntry :: "KubernetesResource \<Rightarrow> V1ContainerPort \<Rightarrow> ForwardablePort" where
  "workloadEntry workload portSpec =
     \<lparr>name = cp_name portSpec, protocol = ''TCP'',
      targetName = kind workload @ ''/'' @ resourceName workload,
      targetPort = containerPort portSpec\<rparr>"

text \<open>
  A container port is covered when some Service whose selector matches the labels of the
  pod template has a port whose target port is the container port, as a number that is
  not zero.
\<close>

definition covered ::
  "(labelMap \<Rightarrow> labelMap \<Rightarrow> bool) \<Rightarrow> KubernetesResource list \<Rightarrow> V1PodTemplate
     \<Rightarrow> V1ContainerPort \<Rightarrow> bool" where
  "covered M services podTemplate portSpec =
     (\<exists>service \<in> set services.
        M (selectorOf service) (labelsOf podTemplate)
        \<and> (\<exists>sp \<in> set (portsOf service).
              sp_targetPort sp = Some (Num (containerPort portSpec))
              \<and> containerPort portSpec \<noteq> 0))"

text \<open>
  The same condition without the restriction to numbers other than zero: some matching
  Service has a port whose target port equals the container port.
\<close>

definition coveredAsClaimed ::
  "(labelMap \<Rightarrow> labelMap \<Rightarrow> bool) \<Rightarrow> KubernetesResource list \<Rightarrow> V1PodTemplate
     \<Rightarrow> V1ContainerPort \<Rightarrow> bool" where
  "coveredAsClaimed M services podTemplate portSpec =
     (\<exists>service \<in> set services.
        M (selectorOf service) (labelsOf podTemplate)
        \<and> (\<exists>sp \<in> set (portsOf service).
              sp_targetPort sp = Some (Num (containerPort portSpec))))"

definition workloadEntries ::
  "(labelMap \<Rightarrow> labelMap \<Rightarrow> bool) \<Rightarrow> KubernetesResource list \<Rightarrow> KubernetesResource
     \<Rightarrow> ForwardablePort list" where
  "workloadEntries M services workload =
     (case templateOf workload of
        None \<Rightarrow> []
      | Some podTemplate \<Rightarrow>
          map (workloadEntry workload)
            (filter (\<lambda>portSpec. \<not> covered M services podTemplate portSpec)
               (portSpecsOf podTemplate)))"

text \<open>
  The inputs on which no property of \<open>undefined\<close> is read: every selected Service has
  \<open>spec\<close> and \<open>metadata\<close>, every selected workload \<open>spec.template\<close> and
  \<open>metadata\<close>.
\<close>

definition wellFormed :: "(KubernetesResource \<Rightarrow> bool) \<Rightarrow> KubernetesResource list \<Rightarrow> bool" where
  "wellFormed B resources =
     list_all (\<lambda>r. (isService B r \<longrightarrow> spec r \<noteq> None \<and> metadata r \<noteq> None)
                  \<and> (isWorkload B r \<longrightarrow> templateOf r \<noteq> None \<and> metadata r \<noteq> None))
       resources"

definition resolve ::
  "(KubernetesResource \<Rightarrow> bool) \<Rightarrow> (labelMap \<Rightarrow> labelMap \<Rightarrow> bool)
     \<Rightarrow> KubernetesResource list \<Rightarrow> ForwardablePort list" where
  "resolve B M resources =
     concat (map (\<lambda>s. map (serviceEntry s) (portsOf s)) (filter (isService B) resources))
     @ concat (map (workloadEntries M (filter (isService B) resources))
                 (filter (isWorkload B) resources))"

text \<open>
  The container ports a workload declares, and the target ports that are named or zero.
\<close>

definition workloadPortSpecs :: "KubernetesResource \<Rightarrow> V1ContainerPort list" where
  "workloadPortSpecs workload =
     (case templateOf workload of None \<Rightarrow> [] | Some podTemplate \<Rightarrow> portSpecsOf podTemplate)"

fun namedOrZero :: "IntOrString option \<Rightarrow> bool" where
  "namedOrZero None = False"
| "namedOrZero (Some (Num n)) = (n = 0)"
| "namedOrZero (Some (Str s)) = True"

subsection \<open>Example resources\<close>

definition mkService :: "string \<Rightarrow> labelMap option \<Rightarrow> V1ServicePort list option \<Rightarrow> KubernetesResource" where
  "mkService n sel ps =
     \<lparr>apiVersion = ''v1'', kind = ''Service'',
      metadata = Some \<lparr>m_name = Some n, labels = None\<rparr>,
      spec = Some \<lparr>selector = sel, ports = ps, template = None\<rparr>\<rparr>"

definition mkTemplate :: "labelMap \<Rightarrow> V1ContainerPort list \<Rightarrow> V1PodTemplate" where
  "mkTemplate lbls ps =
     \<lparr>pt_metadata = Some \<lparr>m_name = None, labels = Some lbls\<rparr>,
      pt_spec = Some \<lparr>containers = Some [\<lparr>c_ports = Some ps\<rparr>]\<rparr>\<rparr>"

definition mkDeployment :: "string \<Rightarrow> V1PodTemplate \<Rightarrow> KubernetesResource" where
  "mkDeployment n pt =
     \<lparr>apiVersion = ''apps/v1'', kind = ''Deployment'',
      metadata = Some \<lparr>m_name = Some n, labels = None\<rparr>,
      spec = Some \<lparr>selector = None, ports = None, template = Some pt\<rparr>\<rparr>"

definition webResources :: "KubernetesResource list" where
  "webResources =
     [mkService ''web'' (Some [(''app'', ''web'')])
        (Some [\<lparr>sp_name = None, sp_port = 8080, sp_targetPort = Some (Num 8080)\<rparr>]),
      mkDeployment ''web''
        (mkTemplate [(''app'', ''web'')] [\<lparr>cp_name = None, containerPort = 8080\<rparr>])]"

definition zeroResources :: "KubernetesResource list" where
  "zeroResources =
     [mkService ''web'' (Some [(''app'', ''web'')])
        (Some [\<lparr>sp_name = None, sp_port = 80, sp_targetPort = Some (Num 0)\<rparr>]),
      mkDeployment ''web''
        (mkTemplate [(''app'', ''web'')] [\<lparr>cp_name = None, containerPort = 0\<rparr>])]"

definition namedResources :: "KubernetesResource list" where
  "namedResources =
     [mkService ''web'' (Some [(''app'', ''web'')])
        (Some [\<lparr>sp_name = None, sp_port = 80, sp_targetPort = Some (Str ''http'')\<rparr>]),
      mkDeployment ''web''
        (mkTemplate [(''app'', ''web'')] [\<lparr>cp_name = Some ''http'', containerPort = 8080\<rparr>])]"

definition headlessResources :: "KubernetesResource list" where
  "headlessResources =
     [mkService ''db'' None
        (Some [\<lparr>sp_name = None, sp_port = 5432, sp_targetPort = None\<rparr>])]"

section \<open>Registry predicates and example runs\<close>


definition registryOk :: "System \<Rightarrow> bool" where
  "registryOk s =
     (distinct (map fst (registeredPortForwards s))
      \<and> list_all (\<lambda>e. fst e = getPortForwardKey (targetResource (snd e)) (port (snd e)))
            (registeredPortForwards s))"

text \<open>
  Example runs: one call for \<open>Service/web\<close> port 8080 on the empty registry
  (\<open>creating\<close>), the same after the readiness line and the settle delay (\<open>active\<close>),
  after a fatal line on stderr instead (\<open>failing\<close>), and with a second tunnel
  (\<open>twoTunnels\<close>).
\<close>

definition examplePorts :: "handle \<Rightarrow> int" where
  "examplePorts h = 40000 + int h"

definition readyLine :: string where
  "readyLine = ''Forwarding from 127.0.0.1:40000 -> 8080''"

definition webForward :: PortForward where
  "webForward = \<lparr>targetResource = ''Service/web'', port = 8080, localPort = 40000, proc = 0\<rparr>"

definition creating :: System where
  "creating = getPortForward examplePorts ''Service/web'' 8080 initial"

definition active :: System where
  "active = on_timer examplePorts 0 (on_stdout 0 readyLine creating)"

definition allOk :: "handle \<Rightarrow> KillOutcome" where
  "allOk h = KillOk"

definition failing :: System where
  "failing = snd (on_stderr allOk 0 ''error: unable to forward port''
                    (on_stdout 0 ''starting '' creating))"

definition throwsFirst :: "handle \<Rightarrow> KillOutcome" where
  "throwsFirst h = (if h = 0 then KillThrows else KillOk)"

definition apiForward :: PortForward where
  "apiForward = \<lparr>targetResource = ''Deployment/api'', port = 9000, localPort = 40001, proc = 1\<rparr>"

definition twoTunnels :: System where
  "twoTunnels =
     on_timer examplePorts 1
       (on_stdout 1 ''Forwarding from 127.0.0.1:40001 -> 9000''
          (getPortForward examplePorts ''Deployment/api'' 9000 active))"

subsection \<open>Runs and their invariant\<close>

text \<open>
  The events of a run, and the states a run can reach from the empty registry. An
  exception that leaves a handler goes to the runtime; the state the handler left stays.
  The invariant: the registry is well formed, the waiting calls are distinct and have
  been made, and the call of every creation has been made and is not among the waiting
  ones.
\<close>

datatype event =
    Call string int
  | Stdout handle string
  | Stderr handle string
  | Close handle "int option"
  | Error handle exn
  | Timer handle
  | Cleanup

definition step :: "(handle \<Rightarrow> int) \<Rightarrow> (handle \<Rightarrow> KillOutcome) \<Rightarrow> event \<Rightarrow> System \<Rightarrow> System" where
  "step G K ev s =
     (case ev of
        Call tr p \<Rightarrow> getPortForward G tr p s
      | Stdout h line \<Rightarrow> on_stdout h line s
      | Stderr h line \<Rightarrow> snd (on_stderr K h line s)
      | Close h c \<Rightarrow> on_close G h c s
      | Error h e \<Rightarrow> snd (on_error K h e s)
      | Timer h \<Rightarrow> on_timer G h s
      | Cleanup \<Rightarrow> snd (cleanup K s))"

inductive reachable :: "(handle \<Rightarrow> int) \<Rightarrow> (handle \<Rightarrow> KillOutcome) \<Rightarrow> System \<Rightarrow> bool"
  for G :: "handle \<Rightarrow> int" and K :: "handle \<Rightarrow> KillOutcome"
where
  reachable_initial: "reachable G K initial"
| reachable_step: "reachable G K s \<Longrightarrow> reachable G K (step G K ev s)"

definition closureOk :: "nat \<Rightarrow> (nat \<times> string \<times> int) list \<Rightarrow> Closure \<Rightarrow> bool" where
  "closureOk n q cl =
     (key cl = getPortForwardKey (targetResource (portForward cl)) (port (portForward cl))
      \<and> caller cl < n \<and> caller cl \<notin> fst ` set q)"

definition invariantQ :: "(nat \<times> string \<times> int) list \<Rightarrow> System \<Rightarrow> bool" where
  "invariantQ q s =
     (registryOk s
      \<and> distinct (map fst q)
      \<and> (\<forall>r \<in> set q. fst r < ncalls s)
      \<and> (\<forall>h cl. closures s h = Some cl \<longrightarrow> closureOk (ncalls s) q cl))"

definition invariant :: "System \<Rightarrow> bool" where
  "invariant s = invariantQ (queue s) s"

subsection \<open>The creation window\<close>









section \<open>Properties of the resolver\<close>

subsection \<open>The loops compute the specified list\<close>

lemma pushServicePorts_closed:
  "metadata service \<noteq> None \<Longrightarrow>
   pushServicePorts service ps acc = Inr (acc @ map (serviceEntry service) ps)"
  by (induction ps arbitrary: acc) (auto simp: serviceEntry_def resourceName_def)

lemma serviceLoop_closed:
  "list_all (\<lambda>r. spec r \<noteq> None \<and> metadata r \<noteq> None) svcs \<Longrightarrow>
   serviceLoop svcs acc
     = Inr (acc @ concat (map (\<lambda>s. map (serviceEntry s) (portsOf s)) svcs))"
proof (induction svcs arbitrary: acc)
  case Nil
  then show ?case by simp
next
  case (Cons s svcs)
  then obtain sv where sv: "spec s = Some sv" by auto
  from Cons.prems have m: "metadata s \<noteq> None" by simp
  have p: "portsOf s = (case ports sv of None \<Rightarrow> [] | Some ps \<Rightarrow> ps)"
    by (simp add: portsOf_def sv)
  from Cons.prems have rest: "list_all (\<lambda>r. spec r \<noteq> None \<and> metadata r \<noteq> None) svcs"
    by simp
  show ?case
    by (simp add: sv pushServicePorts_closed [OF m] Cons.IH [OF rest] p)
qed

lemma portsMatch_iff:
  "portsMatch ps p \<longleftrightarrow>
     (\<exists>sp \<in> set ps. sp_targetPort sp = Some (Num (containerPort p)) \<and> containerPort p \<noteq> 0)"
  by (induction ps) auto

lemma matchesService_iff: "matchesService M svcs pt p = covered M svcs pt p"
  by (induction svcs) (auto simp: covered_def portsMatch_iff)

lemma pushContainerPorts_closed:
  "metadata w \<noteq> None \<Longrightarrow>
   pushContainerPorts M svcs w pt ps acc
     = Inr (acc @ map (workloadEntry w) (filter (\<lambda>p. \<not> covered M svcs pt p) ps))"
  by (induction ps arbitrary: acc)
     (auto simp: workloadEntry_def resourceName_def matchesService_iff)

lemma workloadLoop_closed:
  "list_all (\<lambda>r. templateOf r \<noteq> None \<and> metadata r \<noteq> None) ws \<Longrightarrow>
   workloadLoop M svcs ws acc = Inr (acc @ concat (map (workloadEntries M svcs) ws))"
proof (induction ws arbitrary: acc)
  case Nil
  then show ?case by simp
next
  case (Cons w ws)
  from Cons.prems obtain sv pt where sv: "spec w = Some sv" and pt: "template sv = Some pt"
    by (auto simp: templateOf_def split: option.splits)
  from Cons.prems have m: "metadata w \<noteq> None" by simp
  from Cons.prems have rest: "list_all (\<lambda>r. templateOf r \<noteq> None \<and> metadata r \<noteq> None) ws"
    by simp
  have t: "templateOf w = Some pt" by (simp add: templateOf_def sv pt)
  show ?case
    by (simp add: sv pt pushContainerPorts_closed [OF m] Cons.IH [OF rest]
          workloadEntries_def t)
qed

lemma getForwardablePorts_closed:
  assumes "wellFormed B rs"
  shows "getForwardablePorts B M rs = Inr (resolve B M rs)"
proof -
  from assms have s: "list_all (\<lambda>r. spec r \<noteq> None \<and> metadata r \<noteq> None) (filter (isService B) rs)"
    by (auto simp: wellFormed_def list_all_iff)
  from assms have w: "list_all (\<lambda>r. templateOf r \<noteq> None \<and> metadata r \<noteq> None) (filter (isWorkload B) rs)"
    by (auto simp: wellFormed_def list_all_iff)
  show ?thesis
    by (simp add: getForwardablePorts_def serviceLoop_closed [OF s] workloadLoop_closed [OF w]
          resolve_def Let_def)
qed

subsection \<open>Resources without ports\<close>

lemma covered_no_ports:
  "portsOf r = [] \<Longrightarrow> covered M (xs @ r # ys) pt p = covered M (xs @ ys) pt p"
  by (auto simp: covered_def)

lemma workloadEntries_no_ports:
  "portsOf r = [] \<Longrightarrow> workloadEntries M (xs @ r # ys) = workloadEntries M (xs @ ys)"
  by (rule ext) (simp add: workloadEntries_def covered_no_ports split: option.splits)

lemma service_not_workload: "isService B r \<Longrightarrow> \<not> isWorkload B r"
  by (auto simp: isService_def isWorkload_def)

lemma resolve_drop_service:
  assumes "isService B r" and "portsOf r = []"
  shows "resolve B M (xs @ r # ys) = resolve B M (xs @ ys)"
  using assms service_not_workload [OF assms(1)]
  by (simp add: resolve_def workloadEntries_no_ports)

lemma workloadEntries_empty:
  "workloadPortSpecs w = [] \<Longrightarrow> workloadEntries M svcs w = []"
  by (simp add: workloadEntries_def workloadPortSpecs_def split: option.splits)

lemma resolve_drop_workload:
  assumes "isWorkload B r" and "workloadPortSpecs r = []"
  shows "resolve B M (xs @ r # ys) = resolve B M (xs @ ys)"
proof -
  from assms(1) have "\<not> isService B r" using service_not_workload by blast
  then show ?thesis
    using assms by (simp add: resolve_def workloadEntries_empty)
qed

lemma wellFormed_drop: "wellFormed B (xs @ r # ys) \<Longrightarrow> wellFormed B (xs @ ys)"
  by (simp add: wellFormed_def)

subsection \<open>Claim C1: the entries of the result\<close>

text \<open>
  Claim C1, as amended. On a resource list in which every selected Service has a
  \<open>spec\<close> and \<open>metadata\<close> and every selected workload a \<open>spec.template\<close> and
  \<open>metadata\<close>, the resolver returns one entry per declared port of every Service, in
  order, and then, for every container port of every Deployment and DaemonSet, in order,
  an entry named \<open><Kind>/<name>\<close> exactly when no Service whose selector matches the
  labels of the pod template has a port whose target port is a non-zero number equal to
  the container port (\<open>resolve\<close>, with \<open>covered\<close>). Services and workloads are the
  resources the two filters of the source select.
\<close>

theorem getForwardablePorts_entries:
  assumes "wellFormed B resources"
  shows "getForwardablePorts B M resources = Inr (resolve B M resources)"
  using assms by (rule getForwardablePorts_closed)

text \<open>
  The example of the specification: Service \<open>web\<close> (selector \<open>app=web\<close>, port 8080 to
  8080) and Deployment \<open>web\<close> (labels \<open>app=web\<close>, container port 8080) give the single
  entry \<open>Service/web\<close>, 8080.
\<close>

theorem getForwardablePorts_entries_witness:
  "wellFormed isBuiltIn webResources
   \<and> getForwardablePorts isBuiltIn matchSelector webResources
       = Inr [\<lparr>name = None, protocol = ''TCP'', targetName = ''Service/web'',
               targetPort = 8080\<rparr>]"
proof -
  have h: "wellFormed isBuiltIn webResources" by code_simp
  have r: "resolve isBuiltIn matchSelector webResources
             = [\<lparr>name = None, protocol = ''TCP'', targetName = ''Service/web'',
                 targetPort = 8080\<rparr>]"
    by code_simp
  show ?thesis
    using h getForwardablePorts_entries [OF h, of matchSelector] r by simp
qed

text \<open>
  Claim C1 as stated fails at port 0. The selector of Service \<open>web\<close> matches, its port
  80 has target port 0 and the container port is 0, so a port of a matching Service has
  a target port equal to the container port; the entry \<open>Deployment/web\<close> is emitted all
  the same, because \<open>serviceTargetPort && ...\<close> is false for 0.
\<close>

theorem zero_port_counterexample:
  "coveredAsClaimed matchSelector (filter (isService isBuiltIn) zeroResources)
     (mkTemplate [(''app'', ''web'')] [\<lparr>cp_name = None, containerPort = 0\<rparr>])
     \<lparr>cp_name = None, containerPort = 0\<rparr>
   \<and> getForwardablePorts isBuiltIn matchSelector zeroResources
       = Inr [\<lparr>name = None, protocol = ''TCP'', targetName = ''Service/web'', targetPort = 80\<rparr>,
              \<lparr>name = None, protocol = ''TCP'', targetName = ''Deployment/web'',
               targetPort = 0\<rparr>]"
  by code_simp

subsection \<open>Claim C9: resources that contribute nothing\<close>

text \<open>
  Claim C9, as amended. On a resource list the resolver returns on, a Service without
  declared ports and a workload without declared container ports contribute no entry:
  the result is the result for the list without that resource.
\<close>

theorem no_ports_no_entries:
  assumes "wellFormed B (xs @ r # ys)"
    and "(isService B r \<and> portsOf r = []) \<or> (isWorkload B r \<and> workloadPortSpecs r = [])"
  shows "getForwardablePorts B M (xs @ r # ys) = getForwardablePorts B M (xs @ ys)
         \<and> getForwardablePorts B M (xs @ ys) = Inr (resolve B M (xs @ ys))"
proof -
  have a: "getForwardablePorts B M (xs @ r # ys) = Inr (resolve B M (xs @ r # ys))"
    using assms(1) by (rule getForwardablePorts_closed)
  have b: "getForwardablePorts B M (xs @ ys) = Inr (resolve B M (xs @ ys))"
    using wellFormed_drop [OF assms(1)] by (rule getForwardablePorts_closed)
  have "resolve B M (xs @ r # ys) = resolve B M (xs @ ys)"
    using assms(2) resolve_drop_service resolve_drop_workload by blast
  with a b show ?thesis by simp
qed

text \<open>
  Claim C9 as stated fails for a Service without a selector: the first loop never reads
  the selector, and Service \<open>db\<close> with port 5432 and no selector gives the entry
  \<open>Service/db\<close>, 5432.
\<close>

theorem headless_service_counterexample:
  "selectorOf (hd headlessResources) = []
   \<and> getForwardablePorts isBuiltIn matchSelector headlessResources
       = Inr [\<lparr>name = None, protocol = ''TCP'', targetName = ''Service/db'',
               targetPort = 5432\<rparr>]"
  by code_simp

text \<open>
  Claim C9 at a Service \<open>idle\<close> without ports, after the resources of the example.
\<close>

theorem no_ports_no_entries_witness:
  "wellFormed isBuiltIn (webResources @ mkService ''idle'' None None # [])
   \<and> isService isBuiltIn (mkService ''idle'' None None)
   \<and> portsOf (mkService ''idle'' None None) = []
   \<and> getForwardablePorts isBuiltIn matchSelector (webResources @ mkService ''idle'' None None # [])
       = Inr [\<lparr>name = None, protocol = ''TCP'', targetName = ''Service/web'',
               targetPort = 8080\<rparr>]"
proof -
  have h: "wellFormed isBuiltIn (webResources @ mkService ''idle'' None None # [])"
    by code_simp
  have s: "isService isBuiltIn (mkService ''idle'' None None)" by code_simp
  have p: "portsOf (mkService ''idle'' None None) = []" by code_simp
  have r: "resolve isBuiltIn matchSelector (webResources @ [])
             = [\<lparr>name = None, protocol = ''TCP'', targetName = ''Service/web'',
                 targetPort = 8080\<rparr>]"
    by code_simp
  from s p have d: "(isService isBuiltIn (mkService ''idle'' None None)
                       \<and> portsOf (mkService ''idle'' None None) = [])
                    \<or> (isWorkload isBuiltIn (mkService ''idle'' None None)
                       \<and> workloadPortSpecs (mkService ''idle'' None None) = [])"
    by simp
  show ?thesis
    using h s p r no_ports_no_entries [OF h d, of matchSelector] by simp
qed

subsection \<open>Claim C10: named and zero target ports\<close>

lemma covered_named_or_zero:
  assumes "\<forall>service \<in> set svcs. M (selectorOf service) (labelsOf pt)
             \<longrightarrow> (\<forall>sp \<in> set (portsOf service). namedOrZero (sp_targetPort sp))"
  shows "\<not> covered M svcs pt p"
proof
  assume "covered M svcs pt p"
  then obtain service sp where s: "service \<in> set svcs"
    and m: "M (selectorOf service) (labelsOf pt)" and sp: "sp \<in> set (portsOf service)"
    and eq: "sp_targetPort sp = Some (Num (containerPort p))" and nz: "containerPort p \<noteq> 0"
    by (auto simp: covered_def)
  from assms s m sp have "namedOrZero (sp_targetPort sp)" by blast
  with eq nz show False by simp
qed

lemma covered_drop_named_or_zero:
  assumes "\<forall>sp \<in> set (portsOf service). namedOrZero (sp_targetPort sp)"
  shows "covered M (xs @ service # ys) pt p = covered M (xs @ ys) pt p"
proof -
  have "\<not> (\<exists>sp \<in> set (portsOf service).
              sp_targetPort sp = Some (Num (containerPort p)) \<and> containerPort p \<noteq> 0)"
  proof
    assume "\<exists>sp \<in> set (portsOf service).
              sp_targetPort sp = Some (Num (containerPort p)) \<and> containerPort p \<noteq> 0"
    then obtain sp where sp: "sp \<in> set (portsOf service)"
      and eq: "sp_targetPort sp = Some (Num (containerPort p))" and nz: "containerPort p \<noteq> 0"
      by blast
    from assms sp have "namedOrZero (sp_targetPort sp)" by blast
    with eq nz show False by simp
  qed
  then show ?thesis by (auto simp: covered_def)
qed

lemma workloadEntry_in_resolve:
  assumes "w \<in> set rs" and "isWorkload B w" and "templateOf w = Some pt"
    and "p \<in> set (portSpecsOf pt)" and "\<not> covered M (filter (isService B) rs) pt p"
  shows "workloadEntry w p \<in> set (resolve B M rs)"
proof -
  from assms(3-5) have "workloadEntry w p \<in> set (workloadEntries M (filter (isService B) rs) w)"
    by (simp add: workloadEntries_def)
  with assms(1,2) show ?thesis
    by (auto simp: resolve_def)
qed

text \<open>
  Claim C10. \<open>matchesService\<close> is true only if a Service with a matching selector has
  a port whose target port is a number, equal to the container port and not zero. A
  Service whose ports all have a named (string) target port or the target port 0 changes
  no answer of \<open>matchesService\<close>; and when every Service matching the pod template is
  such a Service, the container port is not suppressed and its entry, under
  \<open><Kind>/<name>\<close> of the workload, is in the result.
\<close>

theorem named_or_zero_never_suppresses:
  assumes "wellFormed B rs"
    and "w \<in> set rs" and "isWorkload B w" and "templateOf w = Some pt"
    and "p \<in> set (portSpecsOf pt)"
    and "\<forall>service \<in> set (filter (isService B) rs).
           M (selectorOf service) (labelsOf pt)
           \<longrightarrow> (\<forall>sp \<in> set (portsOf service). namedOrZero (sp_targetPort sp))"
  shows "\<not> matchesService M (filter (isService B) rs) pt p
         \<and> (\<exists>out. getForwardablePorts B M rs = Inr out
                \<and> \<lparr>name = cp_name p, protocol = ''TCP'',
                    targetName = kind w @ ''/'' @ resourceName w,
                    targetPort = containerPort p\<rparr> \<in> set out)
         \<and> (\<forall>svcs pt' p'. matchesService M svcs pt' p' \<longrightarrow>
               (\<exists>service \<in> set svcs. M (selectorOf service) (labelsOf pt')
                  \<and> (\<exists>sp \<in> set (portsOf service). \<exists>n. sp_targetPort sp = Some (Num n)
                        \<and> n = containerPort p' \<and> n \<noteq> 0)))
         \<and> (\<forall>xs service ys pt' p'.
               (\<forall>sp \<in> set (portsOf service). namedOrZero (sp_targetPort sp))
               \<longrightarrow> matchesService M (xs @ service # ys) pt' p'
                     = matchesService M (xs @ ys) pt' p')"
proof -
  have nc: "\<not> covered M (filter (isService B) rs) pt p"
    using assms(6) by (rule covered_named_or_zero)
  have e: "getForwardablePorts B M rs = Inr (resolve B M rs)"
    using assms(1) by (rule getForwardablePorts_closed)
  have "workloadEntry w p \<in> set (resolve B M rs)"
    using assms(2-5) nc by (rule workloadEntry_in_resolve)
  then have m: "\<lparr>name = cp_name p, protocol = ''TCP'',
                    targetName = kind w @ ''/'' @ resourceName w,
                    targetPort = containerPort p\<rparr> \<in> set (resolve B M rs)"
    by (simp add: workloadEntry_def)
  have r: "\<forall>svcs pt' p'. matchesService M svcs pt' p' \<longrightarrow>
               (\<exists>service \<in> set svcs. M (selectorOf service) (labelsOf pt')
                  \<and> (\<exists>sp \<in> set (portsOf service). \<exists>n. sp_targetPort sp = Some (Num n)
                        \<and> n = containerPort p' \<and> n \<noteq> 0))"
    by (auto simp: matchesService_iff covered_def)
  have d: "\<forall>xs service ys pt' p'.
               (\<forall>sp \<in> set (portsOf service). namedOrZero (sp_targetPort sp))
               \<longrightarrow> matchesService M (xs @ service # ys) pt' p'
                     = matchesService M (xs @ ys) pt' p'"
    by (simp add: matchesService_iff covered_drop_named_or_zero)
  from nc e m have "\<not> matchesService M (filter (isService B) rs) pt p
         \<and> (\<exists>out. getForwardablePorts B M rs = Inr out
                \<and> \<lparr>name = cp_name p, protocol = ''TCP'',
                    targetName = kind w @ ''/'' @ resourceName w,
                    targetPort = containerPort p\<rparr> \<in> set out)"
    by (simp add: matchesService_iff)
  with r d show ?thesis by blast
qed

text \<open>
  Claim C10 at a Service whose only port has the named target port \<open>http\<close>: the
  container port 8080 of the matching Deployment is emitted as \<open>Deployment/web\<close>.
\<close>

theorem named_or_zero_never_suppresses_witness:
  "wellFormed isBuiltIn namedResources
   \<and> \<not> matchesService matchSelector (filter (isService isBuiltIn) namedResources)
         (mkTemplate [(''app'', ''web'')] [\<lparr>cp_name = Some ''http'', containerPort = 8080\<rparr>])
         \<lparr>cp_name = Some ''http'', containerPort = 8080\<rparr>
   \<and> (\<exists>out. getForwardablePorts isBuiltIn matchSelector namedResources = Inr out
          \<and> \<lparr>name = Some ''http'', protocol = ''TCP'', targetName = ''Deployment/web'',
              targetPort = 8080\<rparr> \<in> set out)"
proof -
  let ?pt = "mkTemplate [(''app'', ''web'')] [\<lparr>cp_name = Some ''http'', containerPort = 8080\<rparr>]"
  let ?p = "\<lparr>cp_name = Some ''http'', containerPort = 8080\<rparr>"
  let ?w = "mkDeployment ''web'' ?pt"
  have h1: "wellFormed isBuiltIn namedResources" by code_simp
  have h2: "?w \<in> set namedResources" by (simp add: namedResources_def)
  have h3: "isWorkload isBuiltIn ?w" by code_simp
  have h4: "templateOf ?w = Some ?pt" by (simp add: templateOf_def mkDeployment_def)
  have h5: "?p \<in> set (portSpecsOf ?pt)" by (simp add: portSpecsOf_def mkTemplate_def)
  have h6: "\<forall>service \<in> set (filter (isService isBuiltIn) namedResources).
              matchSelector (selectorOf service) (labelsOf ?pt)
              \<longrightarrow> (\<forall>sp \<in> set (portsOf service). namedOrZero (sp_targetPort sp))"
    by code_simp
  have n: "kind ?w @ ''/'' @ resourceName ?w = ''Deployment/web''" by code_simp
  show ?thesis
    using h1 n named_or_zero_never_suppresses [where M = matchSelector, OF h1 h2 h3 h4 h5 h6]
    by simp
qed

section \<open>Properties of the tunnel registry\<close>

subsection \<open>The substring test\<close>

lemma take_eq_iff_prefix: "take (length sub) xs = sub \<longleftrightarrow> (\<exists>post. xs = sub @ post)"
proof
  assume "take (length sub) xs = sub"
  then have "xs = sub @ drop (length sub) xs" by (metis append_take_drop_id)
  then show "\<exists>post. xs = sub @ post" ..
next
  assume "\<exists>post. xs = sub @ post"
  then show "take (length sub) xs = sub" by auto
qed

lemma js_includes_iff: "js_includes line sub \<longleftrightarrow> (\<exists>pre post. line = pre @ sub @ post)"
proof (induction line)
  case Nil
  show ?case by auto
next
  case (Cons c cs)
  show ?case
  proof
    assume "js_includes (c # cs) sub"
    then consider "take (length sub) (c # cs) = sub" | "js_includes cs sub" by auto
    then show "\<exists>pre post. c # cs = pre @ sub @ post"
    proof cases
      case 1
      then obtain post where "c # cs = sub @ post" using take_eq_iff_prefix by blast
      then have "c # cs = [] @ sub @ post" by simp
      then show ?thesis by blast
    next
      case 2
      with Cons.IH obtain pre post where "cs = pre @ sub @ post" by blast
      then have "c # cs = (c # pre) @ sub @ post" by simp
      then show ?thesis by blast
    qed
  next
    assume "\<exists>pre post. c # cs = pre @ sub @ post"
    then obtain pre post where e: "c # cs = pre @ sub @ post" by blast
    show "js_includes (c # cs) sub"
    proof (cases pre)
      case Nil
      with e have "\<exists>post. c # cs = sub @ post" by auto
      then have "take (length sub) (c # cs) = sub" using take_eq_iff_prefix by blast
      then show ?thesis by simp
    next
      case (Cons d pre')
      with e have "cs = pre' @ sub @ post" by simp
      with Cons.IH have "js_includes cs sub" by blast
      then show ?thesis by simp
    qed
  qed
qed

subsection \<open>Registry, lock and promises\<close>

lemma map_of_assign_same: "map_of (assign k v reg) k = Some v"
  by (induction reg) auto

lemma map_of_assign_other: "k' \<noteq> k \<Longrightarrow> map_of (assign k v reg) k' = map_of reg k'"
  by (induction reg) auto

lemma map_of_delete_same: "map_of (delete k reg) k = None"
  by (induction reg) (auto simp: delete_def)

lemma map_of_delete_other: "k' \<noteq> k \<Longrightarrow> map_of (delete k reg) k' = map_of reg k'"
  by (induction reg) (auto simp: delete_def)

lemma delete_absent: "map_of reg k = None \<Longrightarrow> delete k reg = reg"
  by (induction reg) (auto simp: delete_def split: if_splits)

lemma pump_locked: "lock s = Some c \<Longrightarrow> pump G q s = s\<lparr>queue := q\<rparr>"
  by (cases q) auto

lemma locked_registry:
  "registeredPortForwards (getPortForward_locked G cid tr p s) = registeredPortForwards s"
  by (simp add: getPortForward_locked_def spawn_def Let_def split: option.splits)

lemma locked_results_other:
  "c \<noteq> cid \<Longrightarrow> results (getPortForward_locked G cid tr p s) c = results s c"
  by (simp add: getPortForward_locked_def spawn_def Let_def split: option.splits)

lemma pump_registry: "registeredPortForwards (pump G q s) = registeredPortForwards s"
  by (induction q arbitrary: s) (auto simp: locked_registry split: option.splits)

lemma pump_results_other: "c \<notin> fst ` set q \<Longrightarrow> results (pump G q s) c = results s c"
  by (induction q arbitrary: s) (auto simp: locked_results_other split: option.splits)

lemma settle_registry: "registeredPortForwards (settle G cid r s) = registeredPortForwards s"
  by (simp add: settle_def Let_def pump_registry)

lemma settle_result:
  "results s cid = Pending \<Longrightarrow> cid \<notin> fst ` set (queue s) \<Longrightarrow> results (settle G cid r s) cid = r"
  by (simp add: settle_def Let_def pump_results_other)

lemma settle_settled: "results s cid \<noteq> Pending \<Longrightarrow> settle G cid r s = s"
  by (simp add: settle_def)




subsection \<open>Calls of \<open>getPortForward\<close>\<close>


lemma waiting_call:
  assumes "lock s = Some c"
  shows "getPortForward G tr p s
           = s\<lparr>ncalls := Suc (ncalls s), results := (results s)(ncalls s := Pending),
               queue := queue s @ [(ncalls s, tr, p)]\<rparr>"
  using assms by (simp add: getPortForward_def pump_locked)

lemma waiting_calls:
  assumes "lock s = Some c"
  shows "spawned ((getPortForward G tr p ^^ n) s) = spawned s
       \<and> registeredPortForwards ((getPortForward G tr p ^^ n) s) = registeredPortForwards s
       \<and> killed ((getPortForward G tr p ^^ n) s) = killed s
       \<and> closures ((getPortForward G tr p ^^ n) s) = closures s
       \<and> timers ((getPortForward G tr p ^^ n) s) = timers s
       \<and> lock ((getPortForward G tr p ^^ n) s) = Some c
       \<and> ncalls ((getPortForward G tr p ^^ n) s) = ncalls s + n
       \<and> queue ((getPortForward G tr p ^^ n) s)
           = queue s @ map (\<lambda>i. (ncalls s + i, tr, p)) [0..<n]
       \<and> results ((getPortForward G tr p ^^ n) s)
           = (\<lambda>x. if ncalls s \<le> x \<and> x < ncalls s + n then Pending else results s x)"
proof (induction n)
  case 0
  show ?case using assms by (auto simp: fun_eq_iff)
next
  case (Suc n)
  let ?s' = "(getPortForward G tr p ^^ n) s"
  from Suc have l: "lock ?s' = Some c" by simp
  have "(getPortForward G tr p ^^ Suc n) s = getPortForward G tr p ?s'" by simp
  also have "\<dots> = ?s'\<lparr>ncalls := Suc (ncalls ?s'), results := (results ?s')(ncalls ?s' := Pending),
               queue := queue ?s' @ [(ncalls ?s', tr, p)]\<rparr>"
    using l by (rule waiting_call)
  finally have e: "(getPortForward G tr p ^^ Suc n) s
      = ?s'\<lparr>ncalls := Suc (ncalls ?s'), results := (results ?s')(ncalls ?s' := Pending),
               queue := queue ?s' @ [(ncalls ?s', tr, p)]\<rparr>" .
  show ?case
    unfolding e using Suc by (auto simp: fun_eq_iff)
qed

subsection \<open>The stdout handler and the settle delay\<close>

lemma on_stdout_ready:
  assumes "closures s h = Some cl" and "\<not> resolved cl"
    and "js_includes line ''Forwarding from ''"
  shows "on_stdout h line s
           = s\<lparr>registeredPortForwards :=
                 assign (key cl) (portForward cl) (registeredPortForwards s),
               closures := (closures s)(h \<mapsto>
                 cl\<lparr>output_buf := output_buf cl @ line, resolved := True\<rparr>),
               timers := timers s @ [(settleDelay, h)]\<rparr>"
  using assms by (simp add: on_stdout_def Let_def)

lemma on_stdout_noise:
  assumes "closures s h = Some cl" and "\<not> resolved cl"
    and "\<not> js_includes line ''Forwarding from ''"
  shows "on_stdout h line s
           = s\<lparr>closures := (closures s)(h \<mapsto> cl\<lparr>output_buf := output_buf cl @ line\<rparr>)\<rparr>"
  using assms by (simp add: on_stdout_def Let_def)

lemma on_stdout_resolved:
  assumes "closures s h = Some cl" and "resolved cl"
  shows "on_stdout h line s = s"
  using assms by (simp add: on_stdout_def)


subsection \<open>The creation window\<close>





subsection \<open>Claim C2: reuse of a live tunnel\<close>



subsection \<open>The example runs\<close>

lemma webKey: "getPortForwardKey ''Service/web'' 8080 = ''Service/web:8080''"
  by (simp add: getPortForwardKey_def show_int_def show_nat.simps)

lemmas run_defs = getPortForward_def getPortForward_locked_def spawn_def on_stdout_def
  on_timer_def on_close_def on_stderr_def on_error_def settle_def kill_def killUnlessKilled_def
  fatalLine_def settleDelay_def initial_def Let_def

lemma creating_fields:
  "registeredPortForwards creating = [] \<and> spawned creating = 1 \<and> lock creating = Some 0
   \<and> queue creating = [] \<and> ncalls creating = 1 \<and> results creating 0 = Pending
   \<and> timers creating = [] \<and> \<not> killed creating 0
   \<and> closures creating 0 = Some \<lparr>key = ''Service/web:8080'', portForward = webForward,
         resolved = False, output_buf = [], caller = 0\<rparr>"
  by (simp add: creating_def run_defs webKey webForward_def examplePorts_def)

lemma active_fields:
  "registeredPortForwards active = [(''Service/web:8080'', webForward)] \<and> spawned active = 1
   \<and> lock active = None \<and> queue active = [] \<and> ncalls active = 1
   \<and> results active 0 = Resolved webForward \<and> timers active = [] \<and> \<not> killed active 0
   \<and> closures active 0 = Some \<lparr>key = ''Service/web:8080'', portForward = webForward,
         resolved = True, output_buf = readyLine, caller = 0\<rparr>"
  by (simp add: active_def creating_fields run_defs readyLine_def)




subsection \<open>The close, stderr and error handlers\<close>

lemma on_close_rejects:
  assumes "closures s h = Some cl" and "\<not> resolved cl" and "results s (caller cl) = Pending"
    and "caller cl \<notin> fst ` set (queue s)"
  shows "results (on_close G h c s) (caller cl)
           = Rejected (RuntimeError (closeMessage c (output_buf cl)) c (portForward cl))"
  using assms by (simp add: on_close_def Let_def settle_result)

lemma on_close_registry:
  assumes "closures s h = Some cl"
  shows "registeredPortForwards (on_close G h c s) = delete (key cl) (registeredPortForwards s)"
  using assms by (auto simp: on_close_def Let_def settle_registry delete_absent)

lemma on_close_active:
  assumes "closures s h = Some cl" and "resolved cl"
  shows "on_close G h c s
           = s\<lparr>registeredPortForwards := delete (key cl) (registeredPortForwards s)\<rparr>"
  using assms by (auto simp: on_close_def Let_def delete_absent)


lemma on_timer_result:
  assumes "(settleDelay, h) \<in> set (timers s)" and "closures s h = Some cl"
    and "results s (caller cl) = Pending" and "caller cl \<notin> fst ` set (queue s)"
  shows "results (on_timer G h s) (caller cl) = Resolved (portForward cl)"
  using assms by (simp add: on_timer_def Let_def settle_result)

lemma fold_on_stdout_resolved:
  assumes "closures s h = Some cl" and "resolved cl"
  shows "fold (on_stdout h) later s = s"
  using assms by (induction later) (simp_all add: on_stdout_resolved)

lemma kill_keeps:
  "results (snd (kill K h s)) = results s
   \<and> registeredPortForwards (snd (kill K h s)) = registeredPortForwards s
   \<and> closures (snd (kill K h s)) = closures s
   \<and> lock (snd (kill K h s)) = lock s \<and> queue (snd (kill K h s)) = queue s
   \<and> timers (snd (kill K h s)) = timers s \<and> spawned (snd (kill K h s)) = spawned s
   \<and> ncalls (snd (kill K h s)) = ncalls s"
  by (simp add: kill_def split: KillOutcome.splits)

lemma killUnlessKilled_keeps:
  "results (snd (killUnlessKilled K h s)) = results s
   \<and> registeredPortForwards (snd (killUnlessKilled K h s)) = registeredPortForwards s
   \<and> closures (snd (killUnlessKilled K h s)) = closures s
   \<and> lock (snd (killUnlessKilled K h s)) = lock s
   \<and> queue (snd (killUnlessKilled K h s)) = queue s
   \<and> timers (snd (killUnlessKilled K h s)) = timers s
   \<and> spawned (snd (killUnlessKilled K h s)) = spawned s
   \<and> ncalls (snd (killUnlessKilled K h s)) = ncalls s"
  by (simp add: killUnlessKilled_def kill_keeps)

lemma killUnlessKilled_killed:
  "killed (snd (killUnlessKilled K h s)) = (killed s)(h := killed s h \<or> K h = KillOk)"
  by (auto simp: killUnlessKilled_def kill_def fun_eq_iff split: KillOutcome.splits)

lemma on_stderr_fatal:
  assumes "closures s h = Some cl" and "fatalLine line"
  shows "on_stderr K h line s
           = killUnlessKilled K h
               (s\<lparr>closures := (closures s)(h \<mapsto> cl\<lparr>output_buf := output_buf cl @ line\<rparr>)\<rparr>)"
  using assms by (simp add: on_stderr_def Let_def)

lemma on_error_keeps:
  "results (snd (on_error K h e s)) = results s
   \<and> registeredPortForwards (snd (on_error K h e s)) = registeredPortForwards s
   \<and> lock (snd (on_error K h e s)) = lock s"
proof (cases "closures s h")
  case None
  then show ?thesis by (simp add: on_error_def)
next
  case (Some cl)
  obtain e' s' where k: "killUnlessKilled K h s = (e', s')" by (cases "killUnlessKilled K h s")
  from killUnlessKilled_keeps [of K h s] k
  have "results s' = results s \<and> registeredPortForwards s' = registeredPortForwards s
        \<and> lock s' = lock s" by simp
  then show ?thesis
    by (simp add: on_error_def Some k split: option.splits)
qed

lemma failing_fields:
  "registeredPortForwards failing = [] \<and> spawned failing = 1 \<and> lock failing = Some 0
   \<and> queue failing = [] \<and> ncalls failing = 1 \<and> results failing 0 = Pending
   \<and> timers failing = [] \<and> killed failing 0
   \<and> closures failing 0 = Some \<lparr>key = ''Service/web:8080'', portForward = webForward,
         resolved = False, output_buf = ''starting error: unable to forward port'', caller = 0\<rparr>"
  by (simp add: failing_def creating_fields run_defs allOk_def)

subsection \<open>Claim C3: when the descriptor enters the registry\<close>




subsection \<open>Claim C4: the readiness line\<close>

text \<open>
  Claim C4. For a creation that is still pending, a stdout line containing
  \<open>Forwarding from \<close> stores the descriptor under the key, sets \<open>resolved\<close>, and
  starts the delay of 250 ms; the call is not resolved by the line itself but at the end
  of the delay, with the descriptor made at the spawn: the requested port and the local
  port allocated for it. Every later stdout line leaves the state as it is; a line
  without the marker before it only adds to the output.
\<close>

theorem readiness_resolves:
  fixes G :: "handle \<Rightarrow> int" and s s0 :: System and h cid :: nat and cl :: Closure
    and line tr k :: string and p :: int
  assumes "closures s h = Some cl" and "\<not> resolved cl"
    and "results s (caller cl) = Pending" and "caller cl \<notin> fst ` set (queue s)"
    and "js_includes line ''Forwarding from ''"
  shows "let s1 = on_stdout h line s
         in map_of (registeredPortForwards s1) (key cl) = Some (portForward cl)
            \<and> closures s1 h = Some (cl\<lparr>output_buf := output_buf cl @ line, resolved := True\<rparr>)
            \<and> timers s1 = timers s @ [(250, h)]
            \<and> results s1 = results s
            \<and> results (on_timer G h s1) (caller cl) = Resolved (portForward cl)
            \<and> (\<forall>later. fold (on_stdout h) later s1 = s1)
            \<and> (\<forall>l. \<not> js_includes l ''Forwarding from '' \<longrightarrow>
                  on_stdout h l s
                    = s\<lparr>closures := (closures s)(h \<mapsto> cl\<lparr>output_buf := output_buf cl @ l\<rparr>)\<rparr>)
            \<and> closures (spawn G cid tr p k s0) (spawned s0)
                = Some \<lparr>key = k,
                        portForward = \<lparr>targetResource = tr, port = p,
                                        localPort = G (spawned s0), proc = spawned s0\<rparr>,
                        resolved = False, output_buf = [], caller = cid\<rparr>"
proof -
  let ?s1 = "on_stdout h line s"
  let ?cl1 = "cl\<lparr>output_buf := output_buf cl @ line, resolved := True\<rparr>"
  note e = on_stdout_ready [OF assms(1,2,5)]
  have c1: "closures ?s1 h = Some ?cl1" by (simp add: e)
  have t1: "(settleDelay, h) \<in> set (timers ?s1)" by (simp add: e)
  have p1: "results ?s1 (caller ?cl1) = Pending" using assms(3) by (simp add: e)
  have q1: "caller ?cl1 \<notin> fst ` set (queue ?s1)" using assms(4) by (simp add: e)
  have r: "results (on_timer G h ?s1) (caller cl) = Resolved (portForward cl)"
    using on_timer_result [OF t1 c1 p1 q1, where G = G] by simp
  have later: "fold (on_stdout h) later ?s1 = ?s1" for later
    by (rule fold_on_stdout_resolved [OF c1]) simp
  have noise: "on_stdout h l s
                 = s\<lparr>closures := (closures s)(h \<mapsto> cl\<lparr>output_buf := output_buf cl @ l\<rparr>)\<rparr>"
    if "\<not> js_includes l ''Forwarding from ''" for l
    using assms(1,2) that by (rule on_stdout_noise)
  have m: "map_of (registeredPortForwards ?s1) (key cl) = Some (portForward cl)"
    by (simp add: e map_of_assign_same)
  have tm: "timers ?s1 = timers s @ [(250, h)]" by (simp add: e settleDelay_def)
  have rs: "results ?s1 = results s" by (simp add: e)
  have sp: "closures (spawn G cid tr p k s0) (spawned s0)
                = Some \<lparr>key = k,
                        portForward = \<lparr>targetResource = tr, port = p,
                                        localPort = G (spawned s0), proc = spawned s0\<rparr>,
                        resolved = False, output_buf = [], caller = cid\<rparr>"
    by (simp add: spawn_def Let_def)
  show ?thesis
    unfolding Let_def using m c1 tm rs r later noise sp by blast
qed

text \<open>
  Claim C4 at the pending creation for \<open>Service/web\<close> port 8080.
\<close>

theorem readiness_resolves_witness:
  "closures creating 0 = Some \<lparr>key = ''Service/web:8080'', portForward = webForward,
         resolved = False, output_buf = [], caller = 0\<rparr>
   \<and> results creating 0 = Pending
   \<and> js_includes readyLine ''Forwarding from ''
   \<and> map_of (registeredPortForwards (on_stdout 0 readyLine creating)) ''Service/web:8080''
       = Some webForward
   \<and> timers (on_stdout 0 readyLine creating) = [(250, 0)]
   \<and> results (on_stdout 0 readyLine creating) 0 = Pending
   \<and> results (on_timer examplePorts 0 (on_stdout 0 readyLine creating)) 0 = Resolved webForward
   \<and> port webForward = 8080 \<and> localPort webForward = examplePorts 0
   \<and> fold (on_stdout 0) [''Handling connection for 40000'', readyLine]
         (on_stdout 0 readyLine creating) = on_stdout 0 readyLine creating"
proof -
  let ?cl = "\<lparr>key = ''Service/web:8080'', portForward = webForward,
         resolved = False, output_buf = [], caller = 0\<rparr>"
  have h1: "closures creating 0 = Some ?cl" by (simp add: creating_fields)
  have h2: "\<not> resolved ?cl" by simp
  have h3: "results creating (caller ?cl) = Pending" by (simp add: creating_fields)
  have h4: "caller ?cl \<notin> fst ` set (queue creating)" by (simp add: creating_fields)
  have h5: "js_includes readyLine ''Forwarding from ''" by (simp add: readyLine_def)
  have t0: "timers creating = []" by (simp add: creating_fields)
  note t = readiness_resolves [OF h1 h2 h3 h4 h5, where G = examplePorts, unfolded Let_def t0]
  have w: "port webForward = 8080 \<and> localPort webForward = examplePorts 0"
    by (simp add: webForward_def examplePorts_def)
  from t have f: "fold (on_stdout 0) [''Handling connection for 40000'', readyLine]
         (on_stdout 0 readyLine creating) = on_stdout 0 readyLine creating"
    by blast
  from t have "map_of (registeredPortForwards (on_stdout 0 readyLine creating)) ''Service/web:8080''
       = Some webForward
   \<and> timers (on_stdout 0 readyLine creating) = [(250, 0)]
   \<and> results (on_stdout 0 readyLine creating) = results creating
   \<and> results (on_timer examplePorts 0 (on_stdout 0 readyLine creating)) 0 = Resolved webForward"
    by simp
  with f h1 h3 h5 w show ?thesis by simp
qed

subsection \<open>Claim C5: the close event\<close>

text \<open>
  Claim C5. The close of the process removes the key from the registry. If readiness
  was never observed, the pending call is rejected with a \<open>RuntimeError\<close> whose message
  holds the exit code and all the output gathered, and whose detail holds the exit code;
  if it was observed, the removal is the only change of the state.
\<close>

theorem close_removes_and_rejects:
  fixes G :: "handle \<Rightarrow> int" and s :: System and h :: nat and cl :: Closure
    and c :: "int option"
  assumes "closures s h = Some cl"
  shows "let s1 = on_close G h c s
         in map_of (registeredPortForwards s1) (key cl) = None
            \<and> registeredPortForwards s1 = delete (key cl) (registeredPortForwards s)
            \<and> (\<not> resolved cl \<and> results s (caller cl) = Pending
                 \<and> caller cl \<notin> fst ` set (queue s)
               \<longrightarrow> results s1 (caller cl)
                     = Rejected (RuntimeError
                         (''Port forward exited with code '' @ show_code c
                            @ '' before establishing connection:'' @ [CHR 0x0A, CHR 0x0A]
                            @ output_buf cl)
                         c (portForward cl)))
            \<and> (resolved cl
               \<longrightarrow> s1 = s\<lparr>registeredPortForwards := delete (key cl) (registeredPortForwards s)\<rparr>)"
proof -
  have a: "registeredPortForwards (on_close G h c s) = delete (key cl) (registeredPortForwards s)"
    using assms by (rule on_close_registry)
  have b: "map_of (registeredPortForwards (on_close G h c s)) (key cl) = None"
    by (simp add: a map_of_delete_same)
  have r: "results (on_close G h c s) (caller cl)
             = Rejected (RuntimeError
                         (''Port forward exited with code '' @ show_code c
                            @ '' before establishing connection:'' @ [CHR 0x0A, CHR 0x0A]
                            @ output_buf cl)
                         c (portForward cl))"
    if "\<not> resolved cl \<and> results s (caller cl) = Pending \<and> caller cl \<notin> fst ` set (queue s)"
    using on_close_rejects [OF assms, where G = G and c = c] that
    by (simp add: closeMessage_def)
  have d: "on_close G h c s
             = s\<lparr>registeredPortForwards := delete (key cl) (registeredPortForwards s)\<rparr>"
    if "resolved cl"
    using assms that by (rule on_close_active)
  show ?thesis
    unfolding Let_def using a b r d by blast
qed

text \<open>
  Claim C5 at a creation that exits with code 1 after a line on stdout and one on stderr,
  and at the active tunnel.
\<close>

theorem close_removes_and_rejects_witness:
  "closures failing 0 = Some \<lparr>key = ''Service/web:8080'', portForward = webForward,
         resolved = False, output_buf = ''starting error: unable to forward port'', caller = 0\<rparr>
   \<and> results failing 0 = Pending
   \<and> results (on_close examplePorts 0 (Some 1) failing) 0
       = Rejected (RuntimeError
           (''Port forward exited with code 1 before establishing connection:''
              @ [CHR 0x0A, CHR 0x0A] @ ''starting error: unable to forward port'')
           (Some 1) webForward)
   \<and> closures active 0 = Some \<lparr>key = ''Service/web:8080'', portForward = webForward,
         resolved = True, output_buf = readyLine, caller = 0\<rparr>
   \<and> map_of (registeredPortForwards active) ''Service/web:8080'' = Some webForward
   \<and> registeredPortForwards (on_close examplePorts 0 None active) = []
   \<and> results (on_close examplePorts 0 None active) = results active"
proof -
  let ?cl = "\<lparr>key = ''Service/web:8080'', portForward = webForward,
         resolved = False, output_buf = ''starting error: unable to forward port'', caller = 0\<rparr>"
  let ?cla = "\<lparr>key = ''Service/web:8080'', portForward = webForward,
         resolved = True, output_buf = readyLine, caller = 0\<rparr>"
  have h1: "closures failing 0 = Some ?cl" by (simp add: failing_fields)
  have h2: "\<not> resolved ?cl \<and> results failing (caller ?cl) = Pending
            \<and> caller ?cl \<notin> fst ` set (queue failing)"
    by (simp add: failing_fields)
  have sc: "show_code (Some 1) = ''1''"
    by (simp add: show_code_def show_int_def show_nat.simps)
  note t = close_removes_and_rejects [OF h1, where G = examplePorts and c = "Some 1",
      unfolded Let_def]
  from t h2 have r: "results (on_close examplePorts 0 (Some 1) failing) 0
       = Rejected (RuntimeError
           (''Port forward exited with code 1 before establishing connection:''
              @ [CHR 0x0A, CHR 0x0A] @ ''starting error: unable to forward port'')
           (Some 1) webForward)"
    by (simp add: sc)
  have g1: "closures active 0 = Some ?cla" by (simp add: active_fields)
  note u = close_removes_and_rejects [OF g1, where G = examplePorts and c = None,
      unfolded Let_def]
  from u have a: "registeredPortForwards (on_close examplePorts 0 None active) = []
      \<and> results (on_close examplePorts 0 None active) = results active"
    by (simp add: active_fields delete_def)
  from h1 h2 r g1 a show ?thesis by (simp add: active_fields)
qed

subsection \<open>Claim C6: fatal lines on stderr\<close>

text \<open>
  Claim C6. A stderr line containing one of the three fatal substrings adds the line to
  the output and calls \<open>kill\<close> on the process unless it is killed already; the process
  is killed afterwards when it was before or \<open>kill\<close> succeeds. The handler settles no
  promise and leaves the registry, the lock and its queue alone: the removal of the key
  and the rejection of a pending call come with the close event that follows.
\<close>

theorem fatal_stderr_kills:
  fixes G :: "handle \<Rightarrow> int" and K :: "handle \<Rightarrow> KillOutcome" and s :: System and h :: nat
    and cl :: Closure and line :: string and c :: "int option"
  assumes "closures s h = Some cl"
    and "js_includes line ''error forwarding port''
         \<or> js_includes line ''unable to forward''
         \<or> js_includes line ''error upgrading connection''"
  shows "let s1 = snd (on_stderr K h line s)
         in killed s1 = (killed s)(h := killed s h \<or> K h = KillOk)
            \<and> results s1 = results s
            \<and> registeredPortForwards s1 = registeredPortForwards s
            \<and> lock s1 = lock s \<and> queue s1 = queue s
            \<and> closures s1 = (closures s)(h \<mapsto> cl\<lparr>output_buf := output_buf cl @ line\<rparr>)
            \<and> (killed s h \<longrightarrow> fst (on_stderr K h line s) = None)
            \<and> map_of (registeredPortForwards (on_close G h c s1)) (key cl) = None
            \<and> (\<not> resolved cl \<and> results s (caller cl) = Pending
                 \<and> caller cl \<notin> fst ` set (queue s)
               \<longrightarrow> results (on_close G h c s1) (caller cl)
                     = Rejected (RuntimeError (closeMessage c (output_buf cl @ line)) c
                         (portForward cl)))"
proof -
  let ?cl1 = "cl\<lparr>output_buf := output_buf cl @ line\<rparr>"
  let ?s0 = "s\<lparr>closures := (closures s)(h \<mapsto> ?cl1)\<rparr>"
  have f: "fatalLine line" using assms(2) by (simp add: fatalLine_def)
  have e: "on_stderr K h line s = killUnlessKilled K h ?s0"
    using assms(1) f by (rule on_stderr_fatal)
  let ?s1 = "snd (on_stderr K h line s)"
  note k = killUnlessKilled_keeps [of K h ?s0]
  have kd: "killed ?s1 = (killed s)(h := killed s h \<or> K h = KillOk)"
    by (simp add: e killUnlessKilled_killed)
  have c1: "closures ?s1 h = Some ?cl1" using k by (simp add: e)
  have already: "fst (on_stderr K h line s) = None" if "killed s h"
    using that by (simp add: e killUnlessKilled_def)
  have m: "map_of (registeredPortForwards (on_close G h c ?s1)) (key cl) = None"
    using on_close_registry [OF c1, where G = G and c = c] by (simp add: map_of_delete_same)
  have r: "results (on_close G h c ?s1) (caller cl)
             = Rejected (RuntimeError (closeMessage c (output_buf cl @ line)) c (portForward cl))"
    if "\<not> resolved cl \<and> results s (caller cl) = Pending \<and> caller cl \<notin> fst ` set (queue s)"
  proof -
    from that have "\<not> resolved ?cl1" "results ?s1 (caller ?cl1) = Pending"
      "caller ?cl1 \<notin> fst ` set (queue ?s1)"
      using k by (simp_all add: e)
    from on_close_rejects [OF c1 this, where G = G and c = c] show ?thesis by simp
  qed
  show ?thesis
    unfolding Let_def using kd k already m r by (simp add: e)
qed

text \<open>
  Claim C6 at the pending creation for \<open>Service/web\<close> port 8080.
\<close>

theorem fatal_stderr_kills_witness:
  "closures creating 0 = Some \<lparr>key = ''Service/web:8080'', portForward = webForward,
         resolved = False, output_buf = [], caller = 0\<rparr>
   \<and> js_includes ''error: unable to forward port'' ''unable to forward''
   \<and> \<not> killed creating 0
   \<and> killed (snd (on_stderr allOk 0 ''error: unable to forward port'' creating)) 0
   \<and> results (snd (on_stderr allOk 0 ''error: unable to forward port'' creating)) 0 = Pending
   \<and> results (on_close examplePorts 0 (Some 1)
        (snd (on_stderr allOk 0 ''error: unable to forward port'' creating))) 0
       = Rejected (RuntimeError (closeMessage (Some 1) ''error: unable to forward port'')
           (Some 1) webForward)"
proof -
  let ?cl = "\<lparr>key = ''Service/web:8080'', portForward = webForward,
         resolved = False, output_buf = [], caller = 0\<rparr>"
  have h1: "closures creating 0 = Some ?cl" by (simp add: creating_fields)
  have i: "js_includes ''error: unable to forward port'' ''unable to forward''" by simp
  then have h2: "js_includes ''error: unable to forward port'' ''error forwarding port''
         \<or> js_includes ''error: unable to forward port'' ''unable to forward''
         \<or> js_includes ''error: unable to forward port'' ''error upgrading connection''"
    by blast
  have h3: "\<not> resolved ?cl \<and> results creating (caller ?cl) = Pending
            \<and> caller ?cl \<notin> fst ` set (queue creating)"
    by (simp add: creating_fields)
  have nk: "\<not> killed creating 0" by (simp add: creating_fields)
  note t = fatal_stderr_kills [OF h1 h2, where G = examplePorts and K = allOk
      and c = "Some 1", unfolded Let_def]
  from t h3 have "killed (snd (on_stderr allOk 0 ''error: unable to forward port'' creating)) 0
   \<and> results (snd (on_stderr allOk 0 ''error: unable to forward port'' creating)) 0 = Pending
   \<and> results (on_close examplePorts 0 (Some 1)
        (snd (on_stderr allOk 0 ''error: unable to forward port'' creating))) 0
       = Rejected (RuntimeError (closeMessage (Some 1) ''error: unable to forward port'')
           (Some 1) webForward)"
    by (simp add: allOk_def creating_fields)
  with h1 i nk show ?thesis by simp
qed

subsection \<open>Claim C8: the error event\<close>

text \<open>
  Claim C8 at a pending creation. The handler of the error event kills the process and
  throws the error: the exception leaves the handler, \<open>reject\<close> is not called, and the
  promise of the call is still pending with the lock held.
\<close>

theorem process_error_thrown_not_rejected:
  "fst (on_error allOk 0 (ProcessError ''spawn kubectl ENOENT'') creating)
     = Some (ProcessError ''spawn kubectl ENOENT'')
   \<and> results (snd (on_error allOk 0 (ProcessError ''spawn kubectl ENOENT'') creating)) 0
       = Pending
   \<and> killed (snd (on_error allOk 0 (ProcessError ''spawn kubectl ENOENT'') creating)) 0
   \<and> lock (snd (on_error allOk 0 (ProcessError ''spawn kubectl ENOENT'') creating)) = Some 0"
  by (simp add: on_error_def killUnlessKilled_def kill_def allOk_def creating_fields)

subsection \<open>The cleanup function\<close>

lemma apiKey: "getPortForwardKey ''Deployment/api'' 9000 = ''Deployment/api:9000''"
  by (simp add: getPortForwardKey_def show_int_def show_nat.simps)

lemma twoTunnels_fields:
  "registeredPortForwards twoTunnels
     = [(''Service/web:8080'', webForward), (''Deployment/api:9000'', apiForward)]
   \<and> \<not> killed twoTunnels 0 \<and> \<not> killed twoTunnels 1"
  by (simp add: twoTunnels_def active_fields run_defs apiKey apiForward_def examplePorts_def)

lemma killPortForward_registry:
  "registeredPortForwards (snd (killPortForward K tr tp s)) = registeredPortForwards s"
  by (simp add: killPortForward_def Let_def killUnlessKilled_keeps split: option.splits)

lemma killPortForward_mono: "killed s h \<Longrightarrow> killed (snd (killPortForward K tr tp s)) h"
  by (auto simp: killPortForward_def Let_def killUnlessKilled_killed split: option.splits)

lemma killPortForward_throw:
  "killPortForward K tr tp s = (Some e, s') \<Longrightarrow> s' = s"
  by (auto simp: killPortForward_def Let_def killUnlessKilled_def kill_def
      split: option.splits if_splits KillOutcome.splits)

lemma killAll_registry:
  "registeredPortForwards (snd (killAll K fwds s)) = registeredPortForwards s"
proof (induction fwds arbitrary: s)
  case Nil
  show ?case by simp
next
  case (Cons fwd fwds)
  obtain e s1 where k: "killPortForward K (targetResource fwd) (port fwd) s = (e, s1)"
    by (cases "killPortForward K (targetResource fwd) (port fwd) s")
  from killPortForward_registry [of K "targetResource fwd" "port fwd" s] k
  have r: "registeredPortForwards s1 = registeredPortForwards s" by simp
  show ?case
    by (cases e) (simp_all add: k r Cons.IH)
qed

lemma killAll_mono: "killed s h \<Longrightarrow> killed (snd (killAll K fwds s)) h"
proof (induction fwds arbitrary: s)
  case Nil
  then show ?case by simp
next
  case (Cons fwd fwds)
  obtain e s1 where k: "killPortForward K (targetResource fwd) (port fwd) s = (e, s1)"
    by (cases "killPortForward K (targetResource fwd) (port fwd) s")
  from killPortForward_mono [OF Cons.prems, of K "targetResource fwd" "port fwd"] k
  have m: "killed s1 h" by simp
  show ?case
    by (cases e) (simp_all add: k m Cons.IH)
qed

lemma killPortForward_again:
  assumes "killPortForward K tr tp s = (None, s1)"
    and "registeredPortForwards s' = registeredPortForwards s"
    and "\<And>h. killed s1 h \<Longrightarrow> killed s' h"
  shows "killPortForward K tr tp s' = (None, s')"
proof (cases "map_of (registeredPortForwards s) (getPortForwardKey tr tp)")
  case None
  then show ?thesis by (simp add: killPortForward_def assms(2))
next
  case (Some fwd)
  from assms(1) Some have k: "killUnlessKilled K (proc fwd) s = (None, s1)"
    by (simp add: killPortForward_def)
  have "killUnlessKilled K (proc fwd) s' = (None, s')"
  proof (cases "killed s' (proc fwd)")
    case True
    then show ?thesis by (simp add: killUnlessKilled_def)
  next
    case False
    with assms(3) have n1: "\<not> killed s1 (proc fwd)" by blast
    from k n1 have "K (proc fwd) = KillFalse"
      by (cases "K (proc fwd)") (auto simp: killUnlessKilled_def kill_def split: if_splits)
    then show ?thesis by (simp add: killUnlessKilled_def kill_def)
  qed
  then show ?thesis by (simp add: killPortForward_def assms(2) Some)
qed

lemma killAll_again:
  "killAll K fwds s = (e, s') \<Longrightarrow> killAll K fwds s' = (e, s')"
proof (induction fwds arbitrary: s)
  case Nil
  then show ?case by simp
next
  case (Cons fwd fwds)
  obtain e1 s1 where k: "killPortForward K (targetResource fwd) (port fwd) s = (e1, s1)"
    by (cases "killPortForward K (targetResource fwd) (port fwd) s")
  show ?case
  proof (cases e1)
    case (Some x)
    with k have s1: "s1 = s" using killPortForward_throw by blast
    from Cons.prems k Some have "e = Some x" "s' = s1" by simp_all
    with k Some s1 show ?thesis by simp
  next
    case None
    with Cons.prems k have rest: "killAll K fwds s1 = (e, s')" by simp
    have r1: "registeredPortForwards s1 = registeredPortForwards s"
      using killPortForward_registry [of K "targetResource fwd" "port fwd" s] k by simp
    have r': "registeredPortForwards s' = registeredPortForwards s"
      using killAll_registry [of K fwds s1] rest r1 by simp
    have m: "killed s' h" if "killed s1 h" for h
      using killAll_mono [OF that, of K fwds] rest by simp
    have "killPortForward K (targetResource fwd) (port fwd) s' = (None, s')"
      using k None r' m by (intro killPortForward_again [where s = s and ?s1.0 = s1]) auto
    with Cons.IH [OF rest] show ?thesis by simp
  qed
qed

lemma cleanup_again: "cleanup K (snd (cleanup K s)) = cleanup K s"
proof -
  obtain e s' where c: "cleanup K s = (e, s')" by (cases "cleanup K s")
  then have k: "killAll K (map snd (registeredPortForwards s)) s = (e, s')"
    by (simp add: cleanup_def)
  have r: "registeredPortForwards s' = registeredPortForwards s"
    using killAll_registry [of K "map snd (registeredPortForwards s)" s] k by simp
  show ?thesis
    using killAll_again [OF k] by (simp add: c cleanup_def r k)
qed

lemma registryOk_lookup:
  assumes "registryOk s" and "fwd \<in> snd ` set (registeredPortForwards s)"
  shows "map_of (registeredPortForwards s) (getPortForwardKey (targetResource fwd) (port fwd))
           = Some fwd"
proof -
  from assms(2) obtain k where m: "(k, fwd) \<in> set (registeredPortForwards s)" by auto
  with assms(1) have "k = getPortForwardKey (targetResource fwd) (port fwd)"
    by (auto simp: registryOk_def list_all_iff)
  moreover from assms(1) have "distinct (map fst (registeredPortForwards s))"
    by (simp add: registryOk_def)
  ultimately show ?thesis using m by simp
qed

lemma killAll_no_throw:
  assumes "\<forall>fwd \<in> set fwds.
             map_of (registeredPortForwards s) (getPortForwardKey (targetResource fwd) (port fwd))
               = Some fwd"
    and "\<forall>fwd \<in> set fwds. K (proc fwd) \<noteq> KillThrows"
  shows "fst (killAll K fwds s) = None
       \<and> killed (snd (killAll K fwds s))
           = (\<lambda>h. killed s h \<or> (h \<in> proc ` set fwds \<and> K h = KillOk))"
  using assms
proof (induction fwds arbitrary: s)
  case Nil
  show ?case by simp
next
  case (Cons fwd fwds)
  let ?s1 = "snd (killUnlessKilled K (proc fwd) s)"
  from Cons.prems(1) have l: "map_of (registeredPortForwards s)
      (getPortForwardKey (targetResource fwd) (port fwd)) = Some fwd" by simp
  from Cons.prems(2) have nt: "K (proc fwd) \<noteq> KillThrows" by simp
  have k: "killPortForward K (targetResource fwd) (port fwd) s = (None, ?s1)"
    using nt by (auto simp: killPortForward_def l killUnlessKilled_def kill_def
        split: KillOutcome.splits)
  have r1: "registeredPortForwards ?s1 = registeredPortForwards s"
    using killUnlessKilled_keeps by blast
  have ih: "fst (killAll K fwds ?s1) = None
       \<and> killed (snd (killAll K fwds ?s1))
           = (\<lambda>h. killed ?s1 h \<or> (h \<in> proc ` set fwds \<and> K h = KillOk))"
    using Cons.prems by (intro Cons.IH) (simp_all add: r1)
  show ?case
    using ih by (auto simp: k killUnlessKilled_killed fun_eq_iff)
qed

lemma killAll_append:
  "killAll K (xs @ ys) s
     = (case killAll K xs s of (Some e, s') \<Rightarrow> (Some e, s') | (None, s') \<Rightarrow> killAll K ys s')"
  by (induction xs arbitrary: s) (auto split: prod.splits option.splits)

lemma cleanup_no_throw:
  assumes "registryOk s"
    and "\<forall>fwd \<in> snd ` set (registeredPortForwards s). K (proc fwd) \<noteq> KillThrows"
  shows "fst (cleanup K s) = None
       \<and> killed (snd (cleanup K s))
           = (\<lambda>h. killed s h
                 \<or> (h \<in> proc ` snd ` set (registeredPortForwards s) \<and> K h = KillOk))"
proof -
  have l: "\<forall>fwd \<in> set (map snd (registeredPortForwards s)).
             map_of (registeredPortForwards s) (getPortForwardKey (targetResource fwd) (port fwd))
               = Some fwd"
    using registryOk_lookup [OF assms(1)] by simp
  have n: "\<forall>fwd \<in> set (map snd (registeredPortForwards s)). K (proc fwd) \<noteq> KillThrows"
    using assms(2) by simp
  from killAll_no_throw [OF l n] show ?thesis
    by (simp add: cleanup_def)
qed

lemma cleanup_throw:
  assumes ok: "registryOk s"
    and reg: "registeredPortForwards s = pre @ (k, fwd) # post"
    and nt: "\<forall>e \<in> set pre. K (proc (snd e)) \<noteq> KillThrows"
    and th: "K (proc fwd) = KillThrows"
    and nk: "\<not> killed s (proc fwd)"
  shows "fst (cleanup K s) = Some (KillError (proc fwd))
       \<and> killed (snd (cleanup K s))
           = (\<lambda>h. killed s h \<or> (h \<in> proc ` snd ` set pre \<and> K h = KillOk))"
proof -
  let ?pre = "map snd pre"
  have l: "\<forall>f \<in> set ?pre.
             map_of (registeredPortForwards s) (getPortForwardKey (targetResource f) (port f))
               = Some f"
    using registryOk_lookup [OF ok] by (auto simp: reg)
  have n: "\<forall>f \<in> set ?pre. K (proc f) \<noteq> KillThrows" using nt by simp
  note a = killAll_no_throw [OF l n]
  obtain s1 where s1: "killAll K ?pre s = (None, s1)"
    using a by (cases "killAll K ?pre s") auto
  from a s1 have k1: "killed s1 = (\<lambda>h. killed s h \<or> (h \<in> proc ` set ?pre \<and> K h = KillOk))"
    by simp
  have r1: "registeredPortForwards s1 = registeredPortForwards s"
    using killAll_registry [of K ?pre s] s1 by simp
  have "fwd \<in> snd ` set (registeredPortForwards s)" by (force simp: reg)
  from registryOk_lookup [OF ok this]
  have lf: "map_of (registeredPortForwards s1) (getPortForwardKey (targetResource fwd) (port fwd))
              = Some fwd"
    by (simp add: r1)
  have nk1: "\<not> killed s1 (proc fwd)" using nk th by (simp add: k1)
  have kf: "killPortForward K (targetResource fwd) (port fwd) s1
              = (Some (KillError (proc fwd)), s1)"
    using nk1 th by (simp add: killPortForward_def lf killUnlessKilled_def kill_def)
  have "cleanup K s = (Some (KillError (proc fwd)), s1)"
    by (simp add: cleanup_def reg killAll_append s1 kf)
  then show ?thesis
    by (simp add: k1 image_image)
qed

subsection \<open>Claim C7: shutdown\<close>

text \<open>
  Claim C7, as amended. The cleanup function is idempotent and leaves the registry as
  it is. When no \<open>kill\<close> throws, it goes through every descriptor of the registry and the
  processes killed afterwards are those killed before and those of the registry whose
  \<open>kill\<close> succeeds; a \<open>kill\<close> that returns false is passed over. A \<open>kill\<close> that
  throws is not caught: the loop ends there, with the exception, and only the processes
  of the descriptors before it have been killed.
\<close>

theorem cleanup_kills_registered:
  fixes K :: "handle \<Rightarrow> KillOutcome" and s :: System
  assumes "registryOk s"
  shows "cleanup K (snd (cleanup K s)) = cleanup K s
       \<and> registeredPortForwards (snd (cleanup K s)) = registeredPortForwards s
       \<and> ((\<forall>fwd \<in> snd ` set (registeredPortForwards s). K (proc fwd) \<noteq> KillThrows)
           \<longrightarrow> fst (cleanup K s) = None
               \<and> killed (snd (cleanup K s))
                   = (\<lambda>h. killed s h
                         \<or> (h \<in> proc ` snd ` set (registeredPortForwards s) \<and> K h = KillOk)))
       \<and> (\<forall>pre k fwd post.
             registeredPortForwards s = pre @ (k, fwd) # post
             \<and> (\<forall>e \<in> set pre. K (proc (snd e)) \<noteq> KillThrows)
             \<and> K (proc fwd) = KillThrows \<and> \<not> killed s (proc fwd)
           \<longrightarrow> fst (cleanup K s) = Some (KillError (proc fwd))
               \<and> killed (snd (cleanup K s))
                   = (\<lambda>h. killed s h \<or> (h \<in> proc ` snd ` set pre \<and> K h = KillOk)))"
proof -
  have a: "cleanup K (snd (cleanup K s)) = cleanup K s" by (rule cleanup_again)
  have b: "registeredPortForwards (snd (cleanup K s)) = registeredPortForwards s"
    by (simp add: cleanup_def killAll_registry)
  note c = cleanup_no_throw [OF assms, where K = K]
  note d = cleanup_throw [OF assms, where K = K]
  show ?thesis
  proof (intro conjI allI impI)
    show "cleanup K (snd (cleanup K s)) = cleanup K s" by (rule a)
    show "registeredPortForwards (snd (cleanup K s)) = registeredPortForwards s" by (rule b)
  next
    assume n: "\<forall>fwd \<in> snd ` set (registeredPortForwards s). K (proc fwd) \<noteq> KillThrows"
    from c [OF n] show "fst (cleanup K s) = None" by (rule conjunct1)
    from c [OF n] show "killed (snd (cleanup K s))
                   = (\<lambda>h. killed s h
                         \<or> (h \<in> proc ` snd ` set (registeredPortForwards s) \<and> K h = KillOk))"
      by (rule conjunct2)
  next
    fix pre k fwd post
    assume h: "registeredPortForwards s = pre @ (k, fwd) # post
             \<and> (\<forall>e \<in> set pre. K (proc (snd e)) \<noteq> KillThrows)
             \<and> K (proc fwd) = KillThrows \<and> \<not> killed s (proc fwd)"
    then have h1: "registeredPortForwards s = pre @ (k, fwd) # post"
      and h2: "\<forall>e \<in> set pre. K (proc (snd e)) \<noteq> KillThrows"
      and h3: "K (proc fwd) = KillThrows" and h4: "\<not> killed s (proc fwd)"
      by simp_all
    from d [OF h1 h2 h3 h4] show "fst (cleanup K s) = Some (KillError (proc fwd))"
      by (rule conjunct1)
    from d [OF h1 h2 h3 h4] show "killed (snd (cleanup K s))
                   = (\<lambda>h. killed s h \<or> (h \<in> proc ` snd ` set pre \<and> K h = KillOk))"
      by (rule conjunct2)
  qed
qed

text \<open>
  Claim C7, as amended, at two registered tunnels.
\<close>

theorem cleanup_kills_registered_witness:
  "registryOk twoTunnels
   \<and> registeredPortForwards twoTunnels
       = [(''Service/web:8080'', webForward), (''Deployment/api:9000'', apiForward)]
   \<and> \<not> killed twoTunnels 0 \<and> \<not> killed twoTunnels 1
   \<and> fst (cleanup allOk twoTunnels) = None
   \<and> killed (snd (cleanup allOk twoTunnels)) 0
   \<and> killed (snd (cleanup allOk twoTunnels)) 1
   \<and> cleanup allOk (snd (cleanup allOk twoTunnels)) = cleanup allOk twoTunnels
   \<and> fst (cleanup throwsFirst twoTunnels) = Some (KillError 0)
   \<and> killed (snd (cleanup throwsFirst twoTunnels)) = killed twoTunnels"
proof -
  have ok: "registryOk twoTunnels"
    by (simp add: registryOk_def twoTunnels_fields webForward_def apiForward_def webKey apiKey)
  note f = twoTunnels_fields
  note t = cleanup_kills_registered [OF ok, where K = allOk]
  have n: "\<forall>fwd \<in> snd ` set (registeredPortForwards twoTunnels). allOk (proc fwd) \<noteq> KillThrows"
    by (simp add: allOk_def)
  note i = conjunct1 [OF t]
  note ke = mp [OF conjunct1 [OF conjunct2 [OF conjunct2 [OF t]]] n]
  note e = conjunct1 [OF ke]
  note k = conjunct2 [OF ke]
  have k0: "killed (snd (cleanup allOk twoTunnels)) 0"
    and k1: "killed (snd (cleanup allOk twoTunnels)) 1"
    unfolding k by (simp_all add: f allOk_def webForward_def apiForward_def)
  note u = cleanup_kills_registered [OF ok, where K = throwsFirst]
  have h: "registeredPortForwards twoTunnels
             = [] @ (''Service/web:8080'', webForward) # [(''Deployment/api:9000'', apiForward)]
           \<and> (\<forall>e \<in> set []. throwsFirst (proc (snd e)) \<noteq> KillThrows)
           \<and> throwsFirst (proc webForward) = KillThrows \<and> \<not> killed twoTunnels (proc webForward)"
    by (simp add: f throwsFirst_def webForward_def)
  note ud = conjunct2 [OF conjunct2 [OF conjunct2 [OF u]]]
  from ud [rule_format, OF h] have th: "fst (cleanup throwsFirst twoTunnels) = Some (KillError 0)
       \<and> killed (snd (cleanup throwsFirst twoTunnels)) = killed twoTunnels"
    by (simp add: webForward_def)
  from ok f e k0 k1 i th show ?thesis by simp
qed

text \<open>
  Claim C7 as stated fails: when \<open>kill\<close> of the first tunnel throws, the exception ends
  the cleanup function and the process of the second tunnel, whose \<open>kill\<close> would
  succeed, is not killed.
\<close>

theorem cleanup_swallows_counterexample:
  "throwsFirst 1 = KillOk
   \<and> \<not> killed twoTunnels 1
   \<and> map_of (registeredPortForwards twoTunnels) ''Deployment/api:9000'' = Some apiForward
   \<and> fst (cleanup throwsFirst twoTunnels) = Some (KillError 0)
   \<and> \<not> killed (snd (cleanup throwsFirst twoTunnels)) 1"
proof -
  have c: "cleanup throwsFirst twoTunnels = (Some (KillError 0), twoTunnels)"
    by (simp add: cleanup_def twoTunnels_fields throwsFirst_def killPortForward_def
        killUnlessKilled_def kill_def webForward_def webKey)
  show ?thesis
    unfolding c using twoTunnels_fields by (simp add: throwsFirst_def)
qed

subsection \<open>The invariant of the reachable states\<close>

text \<open>
  Every state a run reaches satisfies the invariant; in particular \<open>registryOk\<close> holds
  there, and the call of a creation is never one of the waiting calls.
\<close>

lemma registryOk_cong:
  "registeredPortForwards s' = registeredPortForwards s \<Longrightarrow> registryOk s' = registryOk s"
  by (simp add: registryOk_def)

lemma assign_keys: "fst ` set (assign k v reg) = insert k (fst ` set reg)"
  by (induction reg) auto

lemma assign_distinct: "distinct (map fst reg) \<Longrightarrow> distinct (map fst (assign k v reg))"
proof (induction reg)
  case Nil
  show ?case by simp
next
  case (Cons e reg)
  have "fst e \<notin> fst ` set (assign k v reg)" if "fst e \<noteq> k"
    using Cons.prems that by (simp add: assign_keys)
  with Cons show ?case by auto
qed

lemma assign_entries: "set (assign k v reg) \<subseteq> insert (k, v) (set reg)"
  by (induction reg) auto

lemma registryOk_assign:
  assumes "registryOk s" and "k = getPortForwardKey (targetResource v) (port v)"
    and "registeredPortForwards s' = assign k v (registeredPortForwards s)"
  shows "registryOk s'"
proof -
  from assms(1) have d: "distinct (map fst (registeredPortForwards s))"
    and a: "\<forall>e \<in> set (registeredPortForwards s).
              fst e = getPortForwardKey (targetResource (snd e)) (port (snd e))"
    by (simp_all add: registryOk_def list_all_iff)
  have "\<forall>e \<in> set (assign k v (registeredPortForwards s)).
          fst e = getPortForwardKey (targetResource (snd e)) (port (snd e))"
    using a assms(2) assign_entries [of k v "registeredPortForwards s"] by auto
  with assign_distinct [OF d] show ?thesis
    by (simp add: registryOk_def list_all_iff assms(3))
qed

lemma registryOk_delete:
  assumes "registryOk s"
    and "registeredPortForwards s' = delete k (registeredPortForwards s)"
  shows "registryOk s'"
  using assms by (simp add: registryOk_def list_all_iff delete_def distinct_map_filter)

lemma locked_invariantQ:
  assumes "invariantQ ((cid, tr, p) # rest) s"
  shows "invariantQ rest (getPortForward_locked G cid tr p (s\<lparr>lock := Some cid\<rparr>))"
proof -
  from assms have ok: "registryOk s" and d: "distinct (map fst rest)" and nc: "cid \<notin> fst ` set rest"
    and lt: "\<forall>r \<in> set rest. fst r < ncalls s" and c: "cid < ncalls s"
    and cl: "\<forall>h cl. closures s h = Some cl \<longrightarrow> closureOk (ncalls s) ((cid, tr, p) # rest) cl"
    by (auto simp: invariantQ_def)
  have cl': "closureOk (ncalls s) rest cl" if "closures s h = Some cl" for h cl
    using cl that by (auto simp: closureOk_def)
  have new: "closureOk (ncalls s) rest
               \<lparr>key = getPortForwardKey tr p,
                portForward = \<lparr>targetResource = tr, port = p, localPort = G (spawned s),
                               proc = spawned s\<rparr>,
                resolved = False, output_buf = [], caller = cid\<rparr>"
    using c nc by (simp add: closureOk_def)
  show ?thesis
    using ok d lt cl' new
    by (auto simp: invariantQ_def getPortForward_locked_def spawn_def Let_def registryOk_def
        split: option.splits)
qed

lemma pump_invariant: "invariantQ q s \<Longrightarrow> invariant (pump G q s)"
proof (induction q arbitrary: s)
  case Nil
  then show ?case by (simp add: invariant_def invariantQ_def registryOk_def)
next
  case (Cons r q)
  obtain cid tr p where r: "r = (cid, tr, p)" by (cases r)
  show ?case
  proof (cases "lock s")
    case None
    from Cons.prems have "invariantQ q (getPortForward_locked G cid tr p (s\<lparr>lock := Some cid\<rparr>))"
      unfolding r by (rule locked_invariantQ)
    from Cons.IH [OF this] show ?thesis by (simp add: r None)
  next
    case (Some c)
    with Cons.prems show ?thesis
      by (simp add: invariant_def invariantQ_def registryOk_def)
  qed
qed

lemma invariantQ_update:
  assumes "invariantQ q s"
    and "registeredPortForwards s' = registeredPortForwards s"
    and "ncalls s' = ncalls s" and "closures s' = closures s"
  shows "invariantQ q s'"
  using assms by (simp add: invariantQ_def registryOk_def)

lemma settle_invariant:
  assumes "invariant s"
  shows "invariant (settle G cid r s)"
proof -
  let ?s1 = "s\<lparr>results := (results s)(cid := r), lock := None\<rparr>"
  let ?s2 = "s\<lparr>results := (results s)(cid := r)\<rparr>"
  from assms have q1: "invariantQ (queue s) ?s1" and q2: "invariantQ (queue s) ?s2"
    by (simp_all add: invariant_def invariantQ_def registryOk_def)
  from q1 have i1: "invariant (pump G (queue s) ?s1)" by (rule pump_invariant)
  from q2 have i2: "invariant ?s2" by (simp add: invariant_def)
  from assms i1 i2 show ?thesis
    by (simp add: settle_def Let_def)
qed

lemma getPortForward_invariant:
  assumes "invariant s"
  shows "invariant (getPortForward G tr p s)"
proof -
  let ?s1 = "s\<lparr>ncalls := Suc (ncalls s), results := (results s)(ncalls s := Pending)\<rparr>"
  from assms have "invariantQ (queue s @ [(ncalls s, tr, p)]) ?s1"
    by (fastforce simp: invariant_def invariantQ_def registryOk_def closureOk_def)
  then have "invariant (pump G (queue s @ [(ncalls s, tr, p)]) ?s1)" by (rule pump_invariant)
  then show ?thesis
    by (simp add: getPortForward_def)
qed

lemma invariantQ_closure_update:
  assumes "invariantQ q s" and "closures s h = Some cl"
    and "key cl' = key cl" and "portForward cl' = portForward cl" and "caller cl' = caller cl"
    and "registryOk s'" and "ncalls s' = ncalls s" and "closures s' = (closures s)(h \<mapsto> cl')"
  shows "invariantQ q s'"
proof -
  from assms(1,2) have c: "closureOk (ncalls s) q cl" by (simp add: invariantQ_def)
  with assms(3-5) have c': "closureOk (ncalls s) q cl'" by (simp add: closureOk_def)
  have "closureOk (ncalls s') q x" if "closures s' g = Some x" for g x
  proof (cases "g = h")
    case True
    with that assms(8) have "x = cl'" by simp
    with c' assms(7) show ?thesis by simp
  next
    case False
    with that assms(8) have "closures s g = Some x" by simp
    with assms(1,7) show ?thesis by (simp add: invariantQ_def)
  qed
  with assms(1,6,7) show ?thesis by (simp add: invariantQ_def)
qed

lemma on_stdout_invariant:
  assumes "invariant s"
  shows "invariant (on_stdout h line s)"
proof (cases "closures s h")
  case None
  with assms show ?thesis by (simp add: on_stdout_def)
next
  case (Some cl)
  from assms have q: "invariantQ (queue s) s" by (simp add: invariant_def)
  then have ok: "registryOk s" by (simp add: invariantQ_def)
  from q Some have c: "closureOk (ncalls s) (queue s) cl" by (simp add: invariantQ_def)
  show ?thesis
  proof (cases "resolved cl")
    case True
    with Some assms show ?thesis by (simp add: on_stdout_resolved)
  next
    case False
    show ?thesis
    proof (cases "js_includes line ''Forwarding from ''")
      case True
      note e = on_stdout_ready [OF Some False True]
      have r: "registryOk (on_stdout h line s)"
      proof (rule registryOk_assign [where s = s and k = "key cl" and v = "portForward cl"])
        show "registryOk s" by (rule ok)
        show "key cl = getPortForwardKey (targetResource (portForward cl)) (port (portForward cl))"
          using c by (simp add: closureOk_def)
        show "registeredPortForwards (on_stdout h line s)
                = assign (key cl) (portForward cl) (registeredPortForwards s)"
          by (simp add: e)
      qed
      have "invariantQ (queue s) (on_stdout h line s)"
      proof (rule invariantQ_closure_update [where s = s and h = h and cl = cl
            and cl' = "cl\<lparr>output_buf := output_buf cl @ line, resolved := True\<rparr>"])
        show "closures (on_stdout h line s)
                = (closures s)(h \<mapsto> cl\<lparr>output_buf := output_buf cl @ line, resolved := True\<rparr>)"
          by (simp add: e)
        show "ncalls (on_stdout h line s) = ncalls s" by (simp add: e)
      qed (simp_all add: q Some r)
      moreover have "queue (on_stdout h line s) = queue s" by (simp add: e)
      ultimately show ?thesis by (simp add: invariant_def)
    next
      case n: False
      note e = on_stdout_noise [OF Some False n]
      have r: "registryOk (on_stdout h line s)"
        using ok by (simp add: e registryOk_def)
      have "invariantQ (queue s) (on_stdout h line s)"
      proof (rule invariantQ_closure_update [where s = s and h = h and cl = cl
            and cl' = "cl\<lparr>output_buf := output_buf cl @ line\<rparr>"])
        show "closures (on_stdout h line s)
                = (closures s)(h \<mapsto> cl\<lparr>output_buf := output_buf cl @ line\<rparr>)"
          by (simp add: e)
        show "ncalls (on_stdout h line s) = ncalls s" by (simp add: e)
      qed (simp_all add: q Some r)
      moreover have "queue (on_stdout h line s) = queue s" by (simp add: e)
      ultimately show ?thesis by (simp add: invariant_def)
    qed
  qed
qed

lemma invariant_same:
  assumes "invariant s"
    and "registeredPortForwards s' = registeredPortForwards s"
    and "ncalls s' = ncalls s" and "closures s' = closures s" and "queue s' = queue s"
  shows "invariant s'"
  using assms by (simp add: invariant_def invariantQ_def registryOk_def)

lemma killUnlessKilled_invariant:
  assumes "invariant s"
  shows "invariant (snd (killUnlessKilled K h s))"
  by (rule invariant_same [OF assms]) (simp_all add: killUnlessKilled_keeps)

lemma killAll_keeps:
  "closures (snd (killAll K fwds s)) = closures s
   \<and> ncalls (snd (killAll K fwds s)) = ncalls s
   \<and> queue (snd (killAll K fwds s)) = queue s"
proof (induction fwds arbitrary: s)
  case Nil
  show ?case by simp
next
  case (Cons fwd fwds)
  obtain e s1 where k: "killPortForward K (targetResource fwd) (port fwd) s = (e, s1)"
    by (cases "killPortForward K (targetResource fwd) (port fwd) s")
  have "closures (snd (killPortForward K (targetResource fwd) (port fwd) s)) = closures s
        \<and> ncalls (snd (killPortForward K (targetResource fwd) (port fwd) s)) = ncalls s
        \<and> queue (snd (killPortForward K (targetResource fwd) (port fwd) s)) = queue s"
    by (simp add: killPortForward_def Let_def killUnlessKilled_keeps split: option.splits)
  with k have r: "closures s1 = closures s \<and> ncalls s1 = ncalls s \<and> queue s1 = queue s"
    by simp
  show ?case
    by (cases e) (simp_all add: k r Cons.IH)
qed

lemma cleanup_invariant:
  assumes "invariant s"
  shows "invariant (snd (cleanup K s))"
  by (rule invariant_same [OF assms]) (simp_all add: cleanup_def killAll_registry killAll_keeps)

lemma on_error_invariant:
  assumes "invariant s"
  shows "invariant (snd (on_error K h e s))"
proof (cases "closures s h")
  case None
  with assms show ?thesis by (simp add: on_error_def)
next
  case (Some cl)
  have "snd (on_error K h e s) = snd (killUnlessKilled K h s)"
    by (simp add: on_error_def Some split: prod.splits option.splits)
  with killUnlessKilled_invariant [OF assms] show ?thesis by simp
qed

lemma on_stderr_invariant:
  assumes "invariant s"
  shows "invariant (snd (on_stderr K h line s))"
proof (cases "closures s h")
  case None
  with assms show ?thesis by (simp add: on_stderr_def)
next
  case (Some cl)
  let ?s1 = "s\<lparr>closures := (closures s)(h \<mapsto> cl\<lparr>output_buf := output_buf cl @ line\<rparr>)\<rparr>"
  from assms have q: "invariantQ (queue s) s" by (simp add: invariant_def)
  have "invariantQ (queue s) ?s1"
  proof (rule invariantQ_closure_update [where s = s and h = h and cl = cl
        and cl' = "cl\<lparr>output_buf := output_buf cl @ line\<rparr>"])
    show "registryOk ?s1" using q by (simp add: invariantQ_def registryOk_def)
  qed (simp_all add: q Some)
  then have i1: "invariant ?s1" by (simp add: invariant_def)
  have "snd (on_stderr K h line s) = ?s1 \<or> snd (on_stderr K h line s) = snd (killUnlessKilled K h ?s1)"
    by (simp add: on_stderr_def Some Let_def)
  with i1 killUnlessKilled_invariant [OF i1] show ?thesis by auto
qed

lemma on_close_invariant:
  assumes "invariant s"
  shows "invariant (on_close G h c s)"
proof (cases "closures s h")
  case None
  with assms show ?thesis by (simp add: on_close_def)
next
  case (Some cl)
  let ?s1 = "s\<lparr>registeredPortForwards := delete (key cl) (registeredPortForwards s)\<rparr>"
  from assms have ok: "registryOk s" by (simp add: invariant_def invariantQ_def)
  have "registryOk ?s1" using ok by (rule registryOk_delete) simp
  with assms have i1: "invariant ?s1"
    by (simp add: invariant_def invariantQ_def)
  have "on_close G h c s \<in> {s, ?s1, settle G (caller cl)
            (Rejected (RuntimeError (closeMessage c (output_buf cl)) c (portForward cl))) s,
          settle G (caller cl)
            (Rejected (RuntimeError (closeMessage c (output_buf cl)) c (portForward cl))) ?s1}"
    by (simp add: on_close_def Some Let_def)
  with assms i1 settle_invariant [OF assms] settle_invariant [OF i1] show ?thesis by auto
qed

lemma on_timer_invariant:
  assumes "invariant s"
  shows "invariant (on_timer G h s)"
proof -
  let ?s1 = "s\<lparr>timers := remove1 (settleDelay, h) (timers s)\<rparr>"
  from assms have i1: "invariant ?s1" by (rule invariant_same) simp_all
  show ?thesis
  proof (cases "closures s h")
    case None
    with assms i1 show ?thesis by (simp add: on_timer_def Let_def)
  next
    case (Some cl)
    with assms settle_invariant [OF i1] show ?thesis by (simp add: on_timer_def Let_def)
  qed
qed

lemma initial_invariant: "invariant initial"
  by (simp add: invariant_def invariantQ_def registryOk_def initial_def)

lemma step_invariant: "invariant s \<Longrightarrow> invariant (step G K ev s)"
  by (cases ev)
     (simp_all add: step_def getPortForward_invariant on_stdout_invariant on_stderr_invariant
        on_close_invariant on_error_invariant on_timer_invariant cleanup_invariant)

lemma reachable_invariant: "reachable G K s \<Longrightarrow> invariant s"
  by (induction rule: reachable.induct) (simp_all add: initial_invariant step_invariant)

lemma reachable_registryOk: "reachable G K s \<Longrightarrow> registryOk s"
  using reachable_invariant by (fastforce simp: invariant_def invariantQ_def)

lemma reachable_caller_not_waiting:
  assumes "reachable G K s" and "closures s h = Some cl"
  shows "caller cl \<notin> fst ` set (queue s)"
  using reachable_invariant [OF assms(1)] assms(2)
  by (simp add: invariant_def invariantQ_def closureOk_def)


end
